theory Spec2Isabelle
  imports Main
begin

section \<open>Event kinds\<close>

text \<open>
  \<^verbatim>\<open>type EventName = 'created' | 'updated' | 'patched' | 'removed'\<close> is a union of
  four string literals. The datatype has one constructor per literal and
  \<open>eventString\<close> gives the literal back, for the code that works on its characters.
\<close>

datatype EventName = created | updated | patched | removed

fun eventString :: "EventName \<Rightarrow> string" where
  "eventString created = ''created''"
| "eventString updated = ''updated''"
| "eventString patched = ''patched''"
| "eventString removed = ''removed''"

definition events :: "EventName list" where
  "events = [created, updated, patched, removed]"

section \<open>The counter (\<^verbatim>\<open>useCounter\<close>)\<close>

text \<open>
  \<^verbatim>\<open>count\<close> is a Vue ref holding a JavaScript number, a double, that starts at 0 and
  is changed by \<^verbatim>\<open>add\<close> and \<^verbatim>\<open>sub\<close>. The counts are integers; the model keeps them as
  an \<open>int\<close> and rounds the result of every addition and subtraction as the double
  arithmetic does. Every integer of absolute value up to \<open>2 ^ 53\<close> is a double. A
  larger integer is rounded to the nearest double: with \<open>e\<close> the number of bits
  beyond 53, it is rounded to a multiple of \<open>2 ^ e\<close>, a tie going to the even
  multiple. (Overflow to infinity is not modelled: adding or subtracting 1 never
  reaches it.)
\<close>

fun bit_length :: "nat \<Rightarrow> nat" where
  "bit_length n = (if n = 0 then 0 else Suc (bit_length (n div 2)))"

declare bit_length.simps [simp del]

definition round_double :: "int \<Rightarrow> int" where
  "round_double x =
     (if \<bar>x\<bar> \<le> 2 ^ 53 then x
      else (let e = bit_length (nat \<bar>x\<bar>) - 53;
                q = \<bar>x\<bar> div 2 ^ e;
                r = \<bar>x\<bar> mod 2 ^ e;
                half = 2 ^ (e - 1);
                q' = (if r < half \<or> (r = half \<and> even q) then q else q + 1)
            in sgn x * (q' * 2 ^ e)))"

text \<open>
  \<^verbatim>\<open>sub\<close> tests \<^verbatim>\<open>count.value === 0\<close>, which is kept as an equality test rather than a
  floor.
\<close>

record Counter =
  count :: int

definition useCounter :: Counter where
  "useCounter = \<lparr>count = 0\<rparr>"

definition add :: "Counter \<Rightarrow> Counter" where
  "add c = c\<lparr>count := round_double (count c + 1)\<rparr>"

definition sub :: "Counter \<Rightarrow> Counter" where
  "sub c = c\<lparr>count := (if count c = 0 then 0 else round_double (count c - 1))\<rparr>"

datatype counter_call = Add | Sub

fun counter_step :: "counter_call \<Rightarrow> Counter \<Rightarrow> Counter" where
  "counter_step Add c = add c"
| "counter_step Sub c = sub c"

definition counter_run :: "counter_call list \<Rightarrow> Counter \<Rightarrow> Counter" where
  "counter_run calls c = fold counter_step calls c"

section \<open>The name of the pending indicator (\<^verbatim>\<open>makeGetterName\<close>)\<close>

text \<open>
  \<^verbatim>\<open>String.prototype.slice(start, end)\<close>: a negative index counts from the end, both
  indices are clamped to the string, and the result is empty when the start is
  not before the end.
\<close>

definition slice_index :: "int \<Rightarrow> nat \<Rightarrow> nat" where
  "slice_index i len = (if i < 0 then nat (max (int len + i) 0) else min (nat i) len)"

definition slice :: "int \<Rightarrow> int \<Rightarrow> string \<Rightarrow> string" where
  "slice start end s =
     (let from = slice_index start (length s); to = slice_index end (length s)
      in take (to - from) (drop from s))"

text \<open>
  \<^verbatim>\<open>toUpperCase\<close> on the letters \<^verbatim>\<open>a\<close> to \<^verbatim>\<open>z\<close>; every other ASCII character is left
  as it is. The event kinds are ASCII.
\<close>

definition upper_char :: "char \<Rightarrow> char" where
  "upper_char c =
     (if (97::nat) \<le> of_char c \<and> of_char c \<le> (122::nat)
      then char_of (of_char c - (32::nat)) else c)"

definition toUpperCase :: "string \<Rightarrow> string" where
  "toUpperCase s = map upper_char s"

definition makeGetterName :: "EventName \<Rightarrow> string" where
  "makeGetterName event =
     (let e = eventString event
      in ''is'' @ toUpperCase (slice 0 1 e) @ slice 1 (int (length e) - 1) e @ ''Pending'')"

section \<open>The event lock registry (\<^verbatim>\<open>useServiceEventLocks\<close>)\<close>

text \<open>
  \<^verbatim>\<open>MaybeArray<Id>\<close> is one identity or an array of identities. An identity is used
  as a property key of the lock object of its event kind; the type \<open>'id\<close> stands
  for that key, so two identities are equal exactly when they name the same
  property.
\<close>

datatype 'a MaybeArray = One 'a | Many "'a list"

text \<open>
  Modelled from the spec: \<^verbatim>\<open>getArray\<close> of \<^verbatim>\<open>utils/index.js\<close> is imported by
  \<^verbatim>\<open>event-locks.ts\<close> and is not among the sources. The spec passes "one-or-many
  identity" and works on "each identity": \<^verbatim>\<open>items\<close> is the array itself, or the
  single identity as a list of one.
\<close>

fun getArray :: "'a MaybeArray \<Rightarrow> 'a list" where
  "getArray (One x) = [x]"
| "getArray (Many xs) = xs"

text \<open>
  \<^verbatim>\<open>eventLocks\<close> is a reactive object with one lock object per event kind, each
  from identity to boolean. \<^verbatim>\<open>setTimeout\<close> is modelled by the list of timers that
  have been set and have not fired, in the order they were set, and a clock:
  a timer holds the time at which it is due and the arguments its callback
  passes to \<^verbatim>\<open>clearEventLock\<close> (the variables \<^verbatim>\<open>data\<close> and \<^verbatim>\<open>event\<close> it closes over).

  A lock object is a plain object (\<^verbatim>\<open>{}\<close>). A read \<^verbatim>\<open>eventLocks[event][id]\<close> finds the
  object's own entry and, when there is none, the property of that name that
  every object inherits from \<^verbatim>\<open>Object.prototype\<close> (\<^verbatim>\<open>constructor\<close>, \<^verbatim>\<open>toString\<close>, ...);
  these are functions, so the value read is truthy. A write and a \<^verbatim>\<open>delete\<close> act on
  the own entries only. \<open>inherited\<close> is the set of identities that name an
  inherited property; it is fixed by the language and no operation changes it.
  For identities that are numbers it is empty.
\<close>

record 'id timer =
  due :: nat
  timer_data :: "'id MaybeArray"
  timer_event :: EventName

record 'id lock_store =
  eventLocks :: "EventName \<Rightarrow> ('id \<rightharpoonup> bool)"
  inherited :: "'id set"
  timers :: "'id timer list"
  now :: nat

definition useServiceEventLocks :: "'id set \<Rightarrow> nat \<Rightarrow> 'id lock_store" where
  "useServiceEventLocks proto t0 =
     \<lparr>eventLocks = (\<lambda>event. Map.empty), inherited = proto, timers = [], now = t0\<rparr>"

text \<open>
  \<open>held w event i\<close>: the value of \<^verbatim>\<open>eventLocks[event][id]\<close> is truthy. It is what
  \<^verbatim>\<open>toggleEventLock\<close> tests (\<^verbatim>\<open>currentLock\<close>) and what a caller that reads the lock
  sees.
\<close>

definition held :: "'id lock_store \<Rightarrow> EventName \<Rightarrow> 'id \<Rightarrow> bool" where
  "held w event i =
     (case eventLocks w event i of Some b \<Rightarrow> b | None \<Rightarrow> i \<in> inherited w)"

definition clearEventLock :: "'id MaybeArray \<Rightarrow> EventName \<Rightarrow> 'id lock_store \<Rightarrow> 'id lock_store" where
  "clearEventLock data event w =
     w\<lparr>eventLocks := (eventLocks w)
          (event := fold (\<lambda>i m. m(i := None)) (getArray data) (eventLocks w event))\<rparr>"

text \<open>
  The body of the \<^verbatim>\<open>forEach\<close> of \<^verbatim>\<open>toggleEventLock\<close> for one \<^verbatim>\<open>id\<close>, here \<open>i\<close>. Both calls of
  \<^verbatim>\<open>clearEventLock\<close> in it pass \<^verbatim>\<open>data\<close>, the whole argument of \<^verbatim>\<open>toggleEventLock\<close>.
\<close>

definition toggle_id :: "'id MaybeArray \<Rightarrow> EventName \<Rightarrow> 'id \<Rightarrow> 'id lock_store \<Rightarrow> 'id lock_store" where
  "toggle_id data event i w =
     (if held w event i
      then clearEventLock data event w
      else w\<lparr>eventLocks := (eventLocks w)(event := (eventLocks w event)(i \<mapsto> True)),
             timers := timers w @ [\<lparr>due = now w + 250, timer_data = data, timer_event = event\<rparr>]\<rparr>)"

definition toggleEventLock :: "'id MaybeArray \<Rightarrow> EventName \<Rightarrow> 'id lock_store \<Rightarrow> 'id lock_store" where
  "toggleEventLock data event w = fold (toggle_id data event) (getArray data) w"

text \<open>
  The event loop: \<open>advance t\<close> lets the clock reach \<open>t\<close> and runs the callback of
  every timer that is due by then, in the order the timers were set (which is
  the order of their due times, the delay being the same for all). A callback
  sets no timer. An observation at time \<open>t\<close> is made on \<open>advance t w\<close>.
\<close>

definition fire :: "'id timer \<Rightarrow> 'id lock_store \<Rightarrow> 'id lock_store" where
  "fire tm w = clearEventLock (timer_data tm) (timer_event tm) w"

definition advance :: "nat \<Rightarrow> 'id lock_store \<Rightarrow> 'id lock_store" where
  "advance t w =
     fold fire (filter (\<lambda>tm. due tm \<le> t) (timers w))
       (w\<lparr>timers := filter (\<lambda>tm. \<not> due tm \<le> t) (timers w), now := max (now w) t\<rparr>)"

text \<open>
  A run of the registry: calls of the two functions and turns of the event loop.
  \<open>names event i c\<close>: the call \<open>c\<close> is a call of \<^verbatim>\<open>toggleEventLock\<close> or
  \<^verbatim>\<open>clearEventLock\<close> for the kind \<open>event\<close> whose identities include \<open>i\<close>.
\<close>

datatype 'id lock_call =
  Toggle "'id MaybeArray" EventName | Clear "'id MaybeArray" EventName | Advance nat

fun lock_step :: "'id lock_call \<Rightarrow> 'id lock_store \<Rightarrow> 'id lock_store" where
  "lock_step (Toggle data event) w = toggleEventLock data event w"
| "lock_step (Clear data event) w = clearEventLock data event w"
| "lock_step (Advance t) w = advance t w"

definition lock_run :: "'id lock_call list \<Rightarrow> 'id lock_store \<Rightarrow> 'id lock_store" where
  "lock_run calls w = fold lock_step calls w"

fun names :: "EventName \<Rightarrow> 'id \<Rightarrow> 'id lock_call \<Rightarrow> bool" where
  "names event i (Toggle data e) = (e = event \<and> i \<in> set (getArray data))"
| "names event i (Clear data e) = (e = event \<and> i \<in> set (getArray data))"
| "names event i (Advance t) = False"

text \<open>
  \<open>timer_lists event i tm\<close>: the callback of the timer \<open>tm\<close> clears the lock of \<open>i\<close> under
  \<open>event\<close>. \<open>armed w T event i\<close>: every pending timer that lists the pair is due at
  \<open>T\<close>; before \<open>T\<close> the lock is set and such a timer is pending; from \<open>T\<close> on the
  entry is gone and no such timer is left.
\<close>

definition timer_lists :: "EventName \<Rightarrow> 'id \<Rightarrow> 'id timer \<Rightarrow> bool" where
  "timer_lists event i tm \<longleftrightarrow> timer_event tm = event \<and> i \<in> set (getArray (timer_data tm))"

definition armed :: "'id lock_store \<Rightarrow> nat \<Rightarrow> EventName \<Rightarrow> 'id \<Rightarrow> bool" where
  "armed w T event i \<longleftrightarrow>
     (\<forall>tm \<in> set (timers w). timer_lists event i tm \<longrightarrow> due tm = T)
     \<and> (now w < T \<longrightarrow>
          eventLocks w event i = Some True \<and> (\<exists>tm \<in> set (timers w). timer_lists event i tm))
     \<and> (T \<le> now w \<longrightarrow>
          eventLocks w event i = None \<and> (\<forall>tm \<in> set (timers w). \<not> timer_lists event i tm))"

section \<open>The pending-operation promise registry (\<^verbatim>\<open>useQueuePromise\<close>)\<close>

text \<open>
  \<^verbatim>\<open>QueuePromiseState\<close>, with the promise as the index of the promise in the list
  of all promises created so far (\<open>None\<close> is \<^verbatim>\<open>null\<close>).
\<close>

record QueuePromiseState =
  promise :: "nat option"
  isResolved :: bool
  getter :: string

definition makeState :: "EventName \<Rightarrow> QueuePromiseState" where
  "makeState event = \<lparr>promise = None, isResolved = False, getter = makeGetterName event\<rparr>"

text \<open>
  The executor of every promise of \<^verbatim>\<open>useQueuePromise\<close> starts exactly one watcher,
  and only that watcher's callback holds the promise's \<^verbatim>\<open>resolve\<close>. A promise and
  its watcher are therefore one record:
  \<^item> \<open>settled\<close>: \<open>None\<close> while the promise is pending, \<open>Some v\<close> once resolved with \<open>v\<close>;
  \<^item> \<open>w_store\<close>, \<open>w_event\<close>: the variables \<^verbatim>\<open>store\<close> and \<^verbatim>\<open>event\<close> the closures hold
    (a store is named by a number; its properties are in \<open>stores\<close>);
  \<^item> \<open>watching\<close>: \<^verbatim>\<open>stopWatching\<close> has not been called;
  \<^item> \<open>dep\<close>: the store property the last run of the watcher's getter read, the
    one whose change runs the watcher again;
  \<^item> \<open>last_seen\<close>: the value the watcher saw last (\<open>None\<close> is \<^verbatim>\<open>undefined\<close>).
\<close>

record watched_promise =
  settled :: "bool option"
  w_store :: nat
  w_event :: EventName
  watching :: bool
  dep :: "string option"
  last_seen :: "bool option"

text \<open>
  The module-level \<^verbatim>\<open>state\<close> object, the promises, the callbacks given to
  \<^verbatim>\<open>setTimeout(..., 0)\<close> that have not run (each named by its promise, in the
  order they were set), and the stores with their boolean properties.
\<close>

record registry =
  state :: "EventName \<rightharpoonup> QueuePromiseState"
  promises :: "watched_promise list"
  timeouts :: "nat list"
  stores :: "nat \<Rightarrow> (string \<rightharpoonup> bool)"

definition registry_init :: "(nat \<Rightarrow> (string \<rightharpoonup> bool)) \<Rightarrow> registry" where
  "registry_init \<sigma> = \<lparr>state = Map.empty, promises = [], timeouts = [], stores = \<sigma>\<rparr>"

definition resetState :: "registry \<Rightarrow> registry" where
  "resetState w = w\<lparr>state := fold (\<lambda>e m. m(e := None)) events (state w)\<rparr>"

text \<open>
  The watcher's callback of promise \<open>p\<close>: \<^verbatim>\<open>if (!isPending) setTimeout(..., 0)\<close>.
  \<^verbatim>\<open>undefined\<close> and \<^verbatim>\<open>false\<close> are the falsy values.
\<close>

definition watch_callback :: "nat \<Rightarrow> bool option \<Rightarrow> registry \<Rightarrow> registry" where
  "watch_callback p isPending w =
     (if isPending \<noteq> Some True then w\<lparr>timeouts := timeouts w @ [p]\<rparr> else w)"

definition resolve :: "nat \<Rightarrow> bool \<Rightarrow> registry \<Rightarrow> registry" where
  "resolve p v w =
     (let c = promises w ! p
      in if settled c = None then w\<lparr>promises := (promises w)[p := c\<lparr>settled := Some v\<rparr>]\<rparr> else w)"

text \<open>
  The callback given to \<^verbatim>\<open>setTimeout\<close>: \<^verbatim>\<open>stopWatching()\<close>, then
  \<^verbatim>\<open>state[event].isResolved = true\<close>, which reads \<^verbatim>\<open>state[event]\<close> at the time the
  callback runs and throws a TypeError when it is \<^verbatim>\<open>undefined\<close> (the callback
  ends there, after the watcher was stopped), then
  \<^verbatim>\<open>resolve(state[event].isResolved)\<close>.
\<close>

definition timeout_callback :: "nat \<Rightarrow> registry \<Rightarrow> registry" where
  "timeout_callback p w =
     (let c = promises w ! p;
          w1 = w\<lparr>promises := (promises w)[p := c\<lparr>watching := False, dep := None\<rparr>]\<rparr>
      in case state w1 (w_event c) of
           None \<Rightarrow> w1
         | Some st \<Rightarrow>
             (let st' = st\<lparr>isResolved := True\<rparr>;
                  w2 = w1\<lparr>state := (state w1)(w_event c \<mapsto> st')\<rparr>
              in resolve p (isResolved st') w2))"

definition run_timeouts :: "registry \<Rightarrow> registry" where
  "run_timeouts w = fold timeout_callback (timeouts w) (w\<lparr>timeouts := []\<rparr>)"

text \<open>
  \<^verbatim>\<open>state[event].promise = new Promise(...)\<close>, where \<open>st\<close> is the object
  \<^verbatim>\<open>state[event]\<close>: the executor calls \<^verbatim>\<open>watch\<close> with \<^verbatim>\<open>immediate: true\<close>, which runs
  the getter \<^verbatim>\<open>store[state[event].getter]\<close> and the callback at once. The flag
  \<^verbatim>\<open>isResolved\<close> of \<open>st\<close> is not written here.
\<close>

definition new_promise :: "nat \<Rightarrow> EventName \<Rightarrow> QueuePromiseState \<Rightarrow> registry \<Rightarrow> nat \<times> registry" where
  "new_promise store event st w =
     (let p = length (promises w);
          v = stores w store (getter st);
          w1 = w\<lparr>promises := promises w @
                 [\<lparr>settled = None, w_store = store, w_event = event, watching = True,
                   dep = Some (getter st), last_seen = v\<rparr>]\<rparr>;
          w2 = watch_callback p v w1
      in (p, w2\<lparr>state := (state w2)(event \<mapsto> st\<lparr>promise := Some p\<rparr>)\<rparr>))"

definition useQueuePromise :: "nat \<Rightarrow> EventName \<Rightarrow> registry \<Rightarrow> nat \<times> registry" where
  "useQueuePromise store event w =
     (let st = (case state w event of None \<Rightarrow> makeState event | Some st \<Rightarrow> st);
          w1 = w\<lparr>state := (state w)(event \<mapsto> st)\<rparr>
      in case promise st of
           None \<Rightarrow> new_promise store event st w1
         | Some p \<Rightarrow> if isResolved st then new_promise store event st w1 else (p, w1))"

text \<open>
  The environment. \<^verbatim>\<open>watch\<close> belongs to Vue; the spec gives its behaviour: "the
  subscription fires immediately with the indicator's current value and on
  every subsequent change". \<open>setIndicator\<close> is a write of a store property by the
  surrounding program, followed by the run of the watchers that depend on the
  property; a write that does not change the value runs no watcher.

  A run of the watcher of promise \<open>p\<close> evaluates its getter, which reads
  \<^verbatim>\<open>state[event]\<close> again. When that is \<^verbatim>\<open>undefined\<close> the getter throws before it
  reads the store, so the watcher depends on no property afterwards. What Vue
  does with the error depends on the build, and is a parameter of the model:
  \<open>Rethrown\<close> ends the run, \<open>Undefined\<close> goes on with the value \<^verbatim>\<open>undefined\<close>.
\<close>

datatype getter_failure = Rethrown | Undefined

definition run_watcher :: "getter_failure \<Rightarrow> nat \<Rightarrow> registry \<Rightarrow> registry" where
  "run_watcher pol p w =
     (let c = promises w ! p
      in case state w (w_event c) of
           None \<Rightarrow>
             (case pol of
                Rethrown \<Rightarrow> w\<lparr>promises := (promises w)[p := c\<lparr>dep := None\<rparr>]\<rparr>
              | Undefined \<Rightarrow>
                  (if last_seen c = None
                   then w\<lparr>promises := (promises w)[p := c\<lparr>dep := None\<rparr>]\<rparr>
                   else watch_callback p None
                          (w\<lparr>promises := (promises w)[p := c\<lparr>dep := None, last_seen := None\<rparr>]\<rparr>)))
         | Some st \<Rightarrow>
             (let v = stores w (w_store c) (getter st)
              in if v = last_seen c
                 then w\<lparr>promises := (promises w)[p := c\<lparr>dep := Some (getter st)\<rparr>]\<rparr>
                 else watch_callback p v
                        (w\<lparr>promises := (promises w)[p := c\<lparr>dep := Some (getter st), last_seen := v\<rparr>]\<rparr>)))"

definition depends_on :: "registry \<Rightarrow> nat \<Rightarrow> string \<Rightarrow> nat \<Rightarrow> bool" where
  "depends_on w store name p =
     (let c = promises w ! p in watching c \<and> w_store c = store \<and> dep c = Some name)"

definition setIndicator :: "getter_failure \<Rightarrow> nat \<Rightarrow> string \<Rightarrow> bool option \<Rightarrow> registry \<Rightarrow> registry" where
  "setIndicator pol store name v w =
     (if stores w store name = v then w
      else fold (run_watcher pol)
             (filter (depends_on w store name) [0..<length (promises w)])
             (w\<lparr>stores := (stores w)(store := (stores w store)(name := v))\<rparr>))"

text \<open>
  A run of the program is a list of calls: calls of the two exported functions,
  writes of store properties, and turns of the event loop that run the queued
  timeout callbacks.
\<close>

datatype call = Use nat EventName | Reset | SetIndicator nat string "bool option" | RunTimeouts

fun step :: "getter_failure \<Rightarrow> call \<Rightarrow> registry \<Rightarrow> registry" where
  "step pol (Use store event) w = snd (useQueuePromise store event w)"
| "step pol Reset w = resetState w"
| "step pol (SetIndicator store name v) w = setIndicator pol store name v w"
| "step pol RunTimeouts w = run_timeouts w"

definition exec :: "getter_failure \<Rightarrow> call list \<Rightarrow> registry \<Rightarrow> registry" where
  "exec pol calls w = fold (step pol) calls w"

subsection \<open>Predicates on runs and registries used in the statements\<close>

text \<open>
  \<open>keeps_true store name c\<close>: the call \<open>c\<close> is not a write of another value than
  \<^verbatim>\<open>true\<close> to the property \<open>name\<close> of \<open>store\<close>. \<open>uses_kind event c\<close>: the call is a
  \<^verbatim>\<open>useQueuePromise\<close> for \<open>event\<close>.
\<close>

fun keeps_true :: "nat \<Rightarrow> string \<Rightarrow> call \<Rightarrow> bool" where
  "keeps_true store name (SetIndicator s n v) = (\<not> (s = store \<and> n = name) \<or> v = Some True)"
| "keeps_true store name (Use s e) = True"
| "keeps_true store name Reset = True"
| "keeps_true store name RunTimeouts = True"

fun uses_kind :: "EventName \<Rightarrow> call \<Rightarrow> bool" where
  "uses_kind event (Use s e) = (e = event)"
| "uses_kind event (SetIndicator s n v) = False"
| "uses_kind event Reset = False"
| "uses_kind event RunTimeouts = False"

text \<open>
  What every registry reached by a run satisfies: the state of a kind names the
  indicator \<^verbatim>\<open>makeGetterName\<close> gives for that kind, and every queued timeout
  callback belongs to a promise that exists.
\<close>

definition registry_ok :: "registry \<Rightarrow> bool" where
  "registry_ok w \<longleftrightarrow>
     (\<forall>e st. state w e = Some st \<longrightarrow> getter st = makeGetterName e)
     \<and> (\<forall>p \<in> set (timeouts w). p < length (promises w))"

text \<open>
  The watcher of the pending promise \<open>p\<close> watches the property \<open>name\<close> of \<open>store\<close>,
  has seen it \<^verbatim>\<open>true\<close>, the property is \<^verbatim>\<open>true\<close>, and no timeout callback of \<open>p\<close> is
  queued.
\<close>

definition waiting :: "registry \<Rightarrow> nat \<Rightarrow> nat \<Rightarrow> EventName \<Rightarrow> string \<Rightarrow> bool" where
  "waiting w p store event name \<longleftrightarrow>
     p < length (promises w)
     \<and> promises w ! p = \<lparr>settled = None, w_store = store, w_event = event, watching = True,
                          dep = Some name, last_seen = Some True\<rparr>
     \<and> p \<notin> set (timeouts w)
     \<and> stores w store name = Some True"

text \<open>
  The outcome of the timeout callback of promise \<open>p\<close> of kind \<open>event\<close>: the promise
  is resolved with \<^verbatim>\<open>true\<close>, its watcher is stopped and the state of the kind is
  marked resolved.
\<close>

definition resolved_true :: "registry \<Rightarrow> nat \<Rightarrow> EventName \<Rightarrow> bool" where
  "resolved_true w p event \<longleftrightarrow>
     settled (promises w ! p) = Some True
     \<and> \<not> watching (promises w ! p)
     \<and> (case state w event of None \<Rightarrow> False | Some st \<Rightarrow> isResolved st)"

text \<open>
  The pending promise \<open>p\<close> of kind \<open>event\<close> after \<^verbatim>\<open>resetState\<close>: no state is tracked
  for its kind.
\<close>

definition abandoned :: "registry \<Rightarrow> nat \<Rightarrow> EventName \<Rightarrow> bool" where
  "abandoned w p event \<longleftrightarrow>
     p < length (promises w)
     \<and> settled (promises w ! p) = None
     \<and> w_event (promises w ! p) = event
     \<and> state w event = None"

text \<open>
  A timeout callback of the pending promise \<open>p\<close> of kind \<open>event\<close> is queued.
\<close>

definition queued :: "registry \<Rightarrow> nat \<Rightarrow> EventName \<Rightarrow> bool" where
  "queued w p event \<longleftrightarrow>
     p \<in> set (timeouts w) \<and> p < length (promises w)
     \<and> settled (promises w ! p) = None \<and> w_event (promises w ! p) = event"

section \<open>Properties of the counter\<close>

lemma round_double_exact: "\<bar>x\<bar> \<le> 2 ^ 53 \<Longrightarrow> round_double x = x"
  by (simp add: round_double_def)

lemma round_double_tie: "round_double 9007199254740993 = 9007199254740992"
  by (simp add: round_double_def bit_length.simps Let_def)

lemma count_add: "count (add c) = round_double (count c + 1)"
  by (simp add: add_def)

lemma counter_step_range:
  assumes "0 \<le> count c \<and> count c \<le> 2 ^ 53"
  shows "0 \<le> count (counter_step x c) \<and> count (counter_step x c) \<le> 2 ^ 53"
proof (cases x)
  case Add
  show ?thesis
  proof (cases "count c = 2 ^ 53")
    case True
    then show ?thesis using Add by (simp add: count_add round_double_tie)
  next
    case False
    with assms have "\<bar>count c + 1\<bar> \<le> 2 ^ 53" by (auto simp: abs_le_iff)
    then have "round_double (count c + 1) = count c + 1" by (rule round_double_exact)
    then show ?thesis using Add assms False by (simp add: count_add)
  qed
next
  case Sub
  from assms have "\<bar>count c - 1\<bar> \<le> 2 ^ 53" by (auto simp: abs_le_iff)
  then have "round_double (count c - 1) = count c - 1" by (rule round_double_exact)
  then show ?thesis using Sub assms by (simp add: sub_def)
qed

lemma counter_run_range:
  "0 \<le> count c \<and> count c \<le> 2 ^ 53 \<Longrightarrow>
     0 \<le> count (counter_run calls c) \<and> count (counter_run calls c) \<le> 2 ^ 53"
  unfolding counter_run_def
proof (induction calls arbitrary: c)
  case Nil
  then show ?case by simp
next
  case (Cons x calls)
  from Cons.IH [OF counter_step_range [OF Cons.prems, of x]] show ?case by simp
qed

lemma counter_run_adds:
  "count (counter_run (replicate n Add) useCounter) = min (int n) (2 ^ 53)"
proof -
  have "count ((add ^^ n) useCounter) = min (int n) (2 ^ 53)"
  proof (induction n)
    case 0
    then show ?case by (simp add: useCounter_def)
  next
    case (Suc n)
    let ?c = "(add ^^ n) useCounter"
    show ?case
    proof (cases "int n < 2 ^ 53")
      case True
      then have c: "count ?c = int n" using Suc by simp
      then have "\<bar>count ?c + 1\<bar> \<le> 2 ^ 53" using True by (auto simp: abs_le_iff)
      then have "round_double (count ?c + 1) = count ?c + 1" by (rule round_double_exact)
      then show ?thesis using True c by (simp add: count_add)
    next
      case False
      then have c: "count ?c = 2 ^ 53" using Suc by simp
      then show ?thesis using False by (simp add: count_add round_double_tie)
    qed
  qed
  moreover have "counter_step Add = add" by (rule ext) simp
  ultimately show ?thesis by (simp add: counter_run_def fold_replicate)
qed

text \<open>
  C3, as amended. After any finite sequence of \<^verbatim>\<open>add\<close> and \<^verbatim>\<open>sub\<close> calls on a counter
  that starts at 0 the count is an integer that is not negative and not above
  \<open>2 ^ 53\<close>. On such a count, \<^verbatim>\<open>add\<close> adds exactly 1 as long as the count is below
  \<open>2 ^ 53\<close> and leaves a count of \<open>2 ^ 53\<close> as it is; \<^verbatim>\<open>sub\<close> subtracts exactly 1 from a
  positive count and leaves a count of 0 as it is; two \<^verbatim>\<open>sub\<close> calls on the fresh
  counter give 0.
\<close>

theorem counter_in_range:
  "0 \<le> count (counter_run calls useCounter)
   \<and> count (counter_run calls useCounter) \<le> 2 ^ 53
   \<and> (\<forall>c. 0 \<le> count c \<and> count c < 2 ^ 53 \<longrightarrow> count (add c) = count c + 1)
   \<and> (\<forall>c. count c = 2 ^ 53 \<longrightarrow> count (add c) = count c)
   \<and> (\<forall>c. 0 < count c \<and> count c \<le> 2 ^ 53 \<longrightarrow> count (sub c) = count c - 1)
   \<and> (\<forall>c. count c = 0 \<longrightarrow> count (sub c) = 0)
   \<and> count (sub (sub useCounter)) = 0"
proof -
  have "0 \<le> count (counter_run calls useCounter) \<and> count (counter_run calls useCounter) \<le> 2 ^ 53"
    by (rule counter_run_range) (simp add: useCounter_def)
  moreover have "count (add c) = count c + 1" if "0 \<le> count c \<and> count c < 2 ^ 53" for c
  proof -
    have "\<bar>count c + 1\<bar> \<le> 2 ^ 53" using that by (auto simp: abs_le_iff)
    then show ?thesis by (simp add: count_add round_double_exact)
  qed
  moreover have "count (add c) = count c" if "count c = 2 ^ 53" for c
    using that by (simp add: count_add round_double_tie)
  moreover have "count (sub c) = count c - 1" if "0 < count c \<and> count c \<le> 2 ^ 53" for c
  proof -
    have "\<bar>count c - 1\<bar> \<le> 2 ^ 53" using that by (auto simp: abs_le_iff)
    then show ?thesis using that by (simp add: sub_def round_double_exact)
  qed
  ultimately show ?thesis by (simp add: sub_def useCounter_def)
qed

theorem counter_in_range_witness:
  "0 \<le> count (counter_run [Sub, Sub, Add, Sub] useCounter)
   \<and> 0 < count (add useCounter)
   \<and> count (add useCounter) = count useCounter + 1
   \<and> count (sub (add useCounter)) = count (add useCounter) - 1
   \<and> count (sub useCounter) = 0"
proof -
  have a: "0 \<le> count useCounter \<and> count useCounter < 2 ^ 53" by (simp add: useCounter_def)
  note T = counter_in_range [of "[Sub, Sub, Add, Sub]"]
  from T a have b: "count (add useCounter) = count useCounter + 1" by blast
  then have c: "0 < count (add useCounter) \<and> count (add useCounter) \<le> 2 ^ 53"
    by (simp add: useCounter_def)
  from T c have "count (sub (add useCounter)) = count (add useCounter) - 1" by blast
  moreover have "count useCounter = 0" by (simp add: useCounter_def)
  with T have "count (sub useCounter) = 0" by blast
  ultimately show ?thesis using T b c by blast
qed

text \<open>
  C3, as stated, fails at the largest count: \<open>2 ^ 53\<close> calls of \<^verbatim>\<open>add\<close> on the fresh
  counter give the count \<open>2 ^ 53\<close>, and one more call gives \<open>2 ^ 53\<close> again, because
  \<open>2 ^ 53 + 1\<close> is not a double and the addition rounds it back.
\<close>

theorem add_stops_at_2_53:
  "count (counter_run (replicate (2 ^ 53) Add) useCounter) = 2 ^ 53
   \<and> count (counter_run (replicate (2 ^ 53 + 1) Add) useCounter) = 2 ^ 53
   \<and> count (add \<lparr>count = 2 ^ 53\<rparr>) = 2 ^ 53"
proof -
  have a: "count (counter_run (replicate (2 ^ 53) Add) useCounter) = min (int (2 ^ 53)) (2 ^ 53)"
    and b: "count (counter_run (replicate (2 ^ 53 + 1) Add) useCounter)
              = min (int (2 ^ 53 + 1)) (2 ^ 53)"
    by (rule counter_run_adds)+
  have m: "min (int (2 ^ 53)) (2 ^ 53) = 2 ^ 53" "min (int (2 ^ 53 + 1)) (2 ^ 53) = 2 ^ 53"
    by simp_all
  have c: "count (add \<lparr>count = 2 ^ 53\<rparr>) = 2 ^ 53"
    using round_double_tie by (simp add: count_add)
  show ?thesis unfolding a b m using c by (intro conjI refl)
qed

section \<open>Properties of the indicator name\<close>

text \<open>
  C2. \<^verbatim>\<open>makeGetterName\<close> drops exactly the last character of the event kind. For
  \<^verbatim>\<open>created\<close>, \<^verbatim>\<open>updated\<close> and \<^verbatim>\<open>removed\<close> that gives the names \<^verbatim>\<open>isCreatePending\<close>,
  \<^verbatim>\<open>isUpdatePending\<close> and \<^verbatim>\<open>isRemovePending\<close>; for \<^verbatim>\<open>patched\<close> it gives
  \<^verbatim>\<open>isPatchePending\<close>, which is not the name \<^verbatim>\<open>isPatchPending\<close> that the type of
  \<^verbatim>\<open>QueuePromiseState.getter\<close> lists.
\<close>

theorem makeGetterName_values:
  "makeGetterName created = ''isCreatePending''
   \<and> makeGetterName updated = ''isUpdatePending''
   \<and> makeGetterName removed = ''isRemovePending''
   \<and> makeGetterName patched = ''isPatchePending''
   \<and> makeGetterName patched \<noteq> ''isPatchPending''"
  by code_simp

section \<open>Properties of the event locks\<close>

lemma fold_delete: "fold (\<lambda>i m. m(i := None)) ids m = (\<lambda>i. if i \<in> set ids then None else m i)"
  by (induction ids arbitrary: m) auto

lemma eventLocks_clearEventLock:
  "eventLocks (clearEventLock d ev w) ev' i =
     (if ev' = ev \<and> i \<in> set (getArray d) then None else eventLocks w ev' i)"
  by (simp add: clearEventLock_def fold_delete)

lemma timers_clearEventLock [simp]: "timers (clearEventLock d ev w) = timers w"
  by (simp add: clearEventLock_def)

lemma now_clearEventLock [simp]: "now (clearEventLock d ev w) = now w"
  by (simp add: clearEventLock_def)

lemma inherited_clearEventLock [simp]: "inherited (clearEventLock d ev w) = inherited w"
  by (simp add: clearEventLock_def)

lemma clearEventLock_twice: "clearEventLock d ev (clearEventLock d ev w) = clearEventLock d ev w"
  by (simp add: clearEventLock_def fold_delete fun_eq_iff)

subsection \<open>What one branch and one call of \<^verbatim>\<open>toggleEventLock\<close> change\<close>

lemma toggle_id_frame [simp]:
  "now (toggle_id d ev j w) = now w"
  "inherited (toggle_id d ev j w) = inherited w"
  by (simp_all add: toggle_id_def)

lemma toggle_id_timers:
  "timers (toggle_id d ev j w) = timers w
   \<or> timers (toggle_id d ev j w) =
       timers w @ [\<lparr>due = now w + 250, timer_data = d, timer_event = ev\<rparr>]"
  by (simp add: toggle_id_def)

lemma toggle_id_other:
  "\<not> (ev = ev' \<and> (i = j \<or> i \<in> set (getArray d))) \<Longrightarrow>
     eventLocks (toggle_id d ev j w) ev' i = eventLocks w ev' i"
  by (auto simp: toggle_id_def eventLocks_clearEventLock)

lemma toggle_id_sets:
  assumes "eventLocks (toggle_id d ev j w) ev i = Some True" and "eventLocks w ev i \<noteq> Some True"
  shows "j = i \<and> timers (toggle_id d ev j w) =
           timers w @ [\<lparr>due = now w + 250, timer_data = d, timer_event = ev\<rparr>]"
  using assms by (auto simp: toggle_id_def eventLocks_clearEventLock split: if_splits)

lemma fold_toggle_id_frame [simp]:
  "now (fold (toggle_id d ev) js w) = now w"
  "inherited (fold (toggle_id d ev) js w) = inherited w"
  by (induction js arbitrary: w) simp_all

lemma fold_toggle_id_timers:
  "\<exists>k. timers (fold (toggle_id d ev) js w) =
         timers w @ replicate k \<lparr>due = now w + 250, timer_data = d, timer_event = ev\<rparr>"
proof (induction js arbitrary: w)
  case Nil
  show ?case by (rule exI [of _ 0]) simp
next
  case (Cons j js)
  let ?tm = "\<lparr>due = now w + 250, timer_data = d, timer_event = ev\<rparr>"
  obtain k where k: "timers (fold (toggle_id d ev) js (toggle_id d ev j w)) =
      timers (toggle_id d ev j w) @ replicate k ?tm"
    using Cons.IH [of "toggle_id d ev j w"] by auto
  from toggle_id_timers [of d ev j w] show ?case
  proof
    assume "timers (toggle_id d ev j w) = timers w"
    then show ?thesis using k by auto
  next
    assume "timers (toggle_id d ev j w) = timers w @ [?tm]"
    then have "timers (fold (toggle_id d ev) (j # js) w) = timers w @ replicate (Suc k) ?tm"
      using k by simp
    then show ?thesis by blast
  qed
qed

lemma fold_toggle_id_other:
  "\<not> (ev = ev' \<and> (i \<in> set js \<or> i \<in> set (getArray d))) \<Longrightarrow>
     eventLocks (fold (toggle_id d ev) js w) ev' i = eventLocks w ev' i"
  by (induction js arbitrary: w) (auto simp: toggle_id_other)

lemma fold_toggle_id_sets:
  "eventLocks (fold (toggle_id d ev) js w) ev i = Some True \<Longrightarrow>
   eventLocks w ev i \<noteq> Some True \<Longrightarrow>
     i \<in> set js \<and> \<lparr>due = now w + 250, timer_data = d, timer_event = ev\<rparr>
                      \<in> set (timers (fold (toggle_id d ev) js w))"
proof (induction js arbitrary: w)
  case Nil
  then show ?case by simp
next
  case (Cons j js)
  let ?w = "toggle_id d ev j w"
  let ?tm = "\<lparr>due = now w + 250, timer_data = d, timer_event = ev\<rparr>"
  show ?case
  proof (cases "eventLocks ?w ev i = Some True")
    case True
    from toggle_id_sets [OF True Cons.prems(2)]
    have j: "j = i" and tm: "timers ?w = timers w @ [?tm]" by auto
    obtain k where "timers (fold (toggle_id d ev) js ?w) = timers ?w @ replicate k
        \<lparr>due = now ?w + 250, timer_data = d, timer_event = ev\<rparr>"
      using fold_toggle_id_timers [of d ev js ?w] by auto
    then show ?thesis using j tm by simp
  next
    case False
    from Cons.IH [of ?w] Cons.prems(1) False show ?thesis by simp
  qed
qed

lemma toggleEventLock_frame [simp]:
  "now (toggleEventLock d ev w) = now w"
  "inherited (toggleEventLock d ev w) = inherited w"
  by (simp_all add: toggleEventLock_def)

subsection \<open>What a turn of the event loop changes\<close>

lemma fold_fire_frame [simp]:
  "timers (fold fire tms w) = timers w"
  "now (fold fire tms w) = now w"
  "inherited (fold fire tms w) = inherited w"
  by (induction tms arbitrary: w) (simp_all add: fire_def)

lemma eventLocks_fire_all:
  "eventLocks (fold fire tms w) ev i =
     (if \<exists>tm \<in> set tms. timer_event tm = ev \<and> i \<in> set (getArray (timer_data tm))
      then None else eventLocks w ev i)"
  by (induction tms arbitrary: w) (auto simp: fire_def eventLocks_clearEventLock)

lemma advance_frame [simp]:
  "timers (advance t w) = filter (\<lambda>tm. \<not> due tm \<le> t) (timers w)"
  "now (advance t w) = max (now w) t"
  "inherited (advance t w) = inherited w"
  by (simp_all add: advance_def)

lemma eventLocks_advance:
  "eventLocks (advance t w) ev i =
     (if \<exists>tm \<in> set (timers w). due tm \<le> t \<and> timer_lists ev i tm then None else eventLocks w ev i)"
  by (auto simp: advance_def eventLocks_fire_all timer_lists_def)

subsection \<open>The lock and its timer through a run\<close>

lemma armed_step:
  assumes "armed w T ev i" and "\<not> names ev i c"
  shows "armed (lock_step c w) T ev i"
proof (cases c)
  case (Toggle d' e')
  let ?tm = "\<lparr>due = now w + 250, timer_data = d', timer_event = e'\<rparr>"
  have nn: "\<not> (e' = ev \<and> i \<in> set (getArray d'))" using assms(2) Toggle by simp
  then have locks: "eventLocks (toggleEventLock d' e' w) ev i = eventLocks w ev i"
    by (simp add: toggleEventLock_def fold_toggle_id_other)
  obtain k where k: "timers (toggleEventLock d' e' w) = timers w @ replicate k ?tm"
    using fold_toggle_id_timers [of d' e' "getArray d'" w] by (auto simp: toggleEventLock_def)
  have "\<not> timer_lists ev i ?tm" using nn by (simp add: timer_lists_def)
  then show ?thesis using assms(1) Toggle locks k by (auto simp: armed_def)
next
  case (Clear d' e')
  then have "\<not> (e' = ev \<and> i \<in> set (getArray d'))" using assms(2) by simp
  then show ?thesis using assms(1) Clear by (auto simp: armed_def eventLocks_clearEventLock)
next
  case (Advance t)
  show ?thesis
  proof (cases "T \<le> t")
    case True
    then show ?thesis using assms(1) Advance
      by (auto simp: armed_def eventLocks_advance max_def)
  next
    case False
    then have "\<not> (\<exists>tm \<in> set (timers w). due tm \<le> t \<and> timer_lists ev i tm)"
      using assms(1) by (auto simp: armed_def)
    then have "eventLocks (advance t w) ev i = eventLocks w ev i"
      by (auto simp: eventLocks_advance)
    then show ?thesis using assms(1) Advance False
      by (auto simp: armed_def max_def)
  qed
qed

lemma armed_run:
  "armed w T ev i \<Longrightarrow> \<forall>c \<in> set calls. \<not> names ev i c \<Longrightarrow> armed (lock_run calls w) T ev i"
  unfolding lock_run_def
  by (induction calls arbitrary: w) (simp_all add: armed_step)

lemma armed_toggleEventLock:
  assumes "\<not> held w ev i"
    and "eventLocks (toggleEventLock d ev w) ev i = Some True"
    and "\<forall>tm \<in> set (timers w). \<not> timer_lists ev i tm"
  shows "armed (toggleEventLock d ev w) (now w + 250) ev i"
proof -
  let ?tm = "\<lparr>due = now w + 250, timer_data = d, timer_event = ev\<rparr>"
  have before: "eventLocks w ev i \<noteq> Some True" using assms(1) by (auto simp: held_def)
  from fold_toggle_id_sets [OF assms(2) [unfolded toggleEventLock_def] before]
  have i: "i \<in> set (getArray d)" and tm: "?tm \<in> set (timers (toggleEventLock d ev w))"
    by (simp_all add: toggleEventLock_def)
  obtain k where k: "timers (toggleEventLock d ev w) = timers w @ replicate k ?tm"
    using fold_toggle_id_timers [of d ev "getArray d" w] by (auto simp: toggleEventLock_def)
  have "timer_lists ev i ?tm" using i by (simp add: timer_lists_def)
  then show ?thesis using assms(2,3) tm k by (auto simp: armed_def)
qed

subsection \<open>Evaluating runs of the lock registry\<close>

lemmas lock_eval =
  lock_run_def toggleEventLock_def toggle_id_def held_def clearEventLock_def advance_def fire_def
  useServiceEventLocks_def

section \<open>The claims about the event locks\<close>

text \<open>
  C1. \<^verbatim>\<open>toggleEventLock([1, 2], 'created')\<close> with both locks held: the branch of
  identity 1 clears the locks of 1 and of 2, since it passes the whole list to
  \<^verbatim>\<open>clearEventLock\<close>; identity 2 then finds no lock, sets one and sets a timer.
  After the call the lock of 2 is held and the lock of 1 is not.
\<close>

theorem toggleEventLock_both_held:
  "eventLocks (toggleEventLock (Many [1, 2]) created
      \<lparr>eventLocks = (\<lambda>e. Map.empty)(created := [1 \<mapsto> True, 2 \<mapsto> True]), inherited = {},
        timers = [], now = 0\<rparr>)
      created (2::nat) = Some True
   \<and> eventLocks (toggleEventLock (Many [1, 2]) created
      \<lparr>eventLocks = (\<lambda>e. Map.empty)(created := [1 \<mapsto> True, 2 \<mapsto> True]), inherited = {},
        timers = [], now = 0\<rparr>)
      created (1::nat) = None
   \<and> timers (toggleEventLock (Many [1, 2]) created
      \<lparr>eventLocks = (\<lambda>e. Map.empty)(created := [1 \<mapsto> True, 2 \<mapsto> True]), inherited = {},
        timers = [], now = 0\<rparr>)
      = [\<lparr>due = 250, timer_data = Many [1, 2::nat], timer_event = created\<rparr>]"
  by (simp add: toggleEventLock_def toggle_id_def held_def clearEventLock_def)

text \<open>
  C5. \<^verbatim>\<open>clearEventLock\<close> leaves no entry for any of the given identities under the
  given kind, whatever was there before, and changes nothing else: not the
  entries of other identities, not the other kinds, not the timers, not the
  clock. It has no failing path (the function is total and returns the store),
  and applying it twice with the same arguments gives the same store as
  applying it once.
\<close>

theorem clearEventLock_idempotent:
  "(\<forall>i \<in> set (getArray d). eventLocks (clearEventLock d ev w) ev i = None)
   \<and> (\<forall>i. i \<notin> set (getArray d) \<longrightarrow> eventLocks (clearEventLock d ev w) ev i = eventLocks w ev i)
   \<and> (\<forall>ev'. ev' \<noteq> ev \<longrightarrow> eventLocks (clearEventLock d ev w) ev' = eventLocks w ev')
   \<and> timers (clearEventLock d ev w) = timers w
   \<and> now (clearEventLock d ev w) = now w
   \<and> clearEventLock d ev (clearEventLock d ev w) = clearEventLock d ev w"
  by (simp add: eventLocks_clearEventLock clearEventLock_twice fun_eq_iff)

theorem clearEventLock_idempotent_witness:
  "(2::nat) \<in> set (getArray (Many [2, 3]))
   \<and> eventLocks (clearEventLock (Many [2, 3]) removed
        (toggleEventLock (One 2) removed (useServiceEventLocks {} 0))) removed (2::nat) = None
   \<and> (5::nat) \<notin> set (getArray (Many [2, 3]))
   \<and> eventLocks (clearEventLock (Many [2, 3]) removed
        (toggleEventLock (One 5) removed (useServiceEventLocks {} 0))) removed (5::nat) = Some True
   \<and> created \<noteq> removed
   \<and> eventLocks (clearEventLock (Many [2, 3]) removed
        (toggleEventLock (One 2) created (useServiceEventLocks {} 0))) created (2::nat) = Some True"
  using clearEventLock_idempotent [of "Many [2, 3::nat]" removed "toggleEventLock (One 2) removed (useServiceEventLocks {} 0)"]
    clearEventLock_idempotent [of "Many [2, 3::nat]" removed "toggleEventLock (One 5) removed (useServiceEventLocks {} 0)"]
    clearEventLock_idempotent [of "Many [2, 3::nat]" removed "toggleEventLock (One 2) created (useServiceEventLocks {} 0)"]
  by (simp add: toggleEventLock_def toggle_id_def held_def useServiceEventLocks_def)

text \<open>
  Two calls of \<^verbatim>\<open>toggleEventLock\<close> in a row for one identity that is passed alone
  (as itself or as a list of one) and is not held: the first sets the entry,
  the second deletes it. For an identity that names an inherited property and
  has no entry of its own, the call always takes the clearing branch: it sets
  no lock and no timer.
\<close>

lemma toggleEventLock_single_twice:
  assumes "getArray d = [i]" and "\<not> held w ev i"
  shows "eventLocks (toggleEventLock d ev w) ev i = Some True
         \<and> eventLocks (toggleEventLock d ev (toggleEventLock d ev w)) ev i = None"
  using assms
  by (simp add: toggleEventLock_def toggle_id_def held_def eventLocks_clearEventLock)

lemma toggleEventLock_inherited:
  assumes "getArray d = [i]" and "i \<in> inherited w" and "eventLocks w ev i = None"
  shows "toggleEventLock d ev w = w"
proof -
  have "(eventLocks w)(ev := (eventLocks w ev)(i := None)) = eventLocks w"
    using assms(3) by (auto simp: fun_eq_iff)
  then show ?thesis using assms
    by (simp add: toggleEventLock_def toggle_id_def held_def clearEventLock_def)
qed

text \<open>
  C6. Two calls of \<^verbatim>\<open>toggleEventLock([1, 2], 'created')\<close> in a row on a fresh
  registry, with no turn of the event loop between them. Neither lock is held
  at the start and the first call sets both. In the second call the branch of
  identity 1 clears the locks of 1 and of 2, and identity 2 then finds no lock
  and sets it again: after the two calls the lock of 2 is present.
\<close>

theorem toggleEventLock_list_twice:
  "\<not> held (useServiceEventLocks {} 0) created (2::nat)
   \<and> held (toggleEventLock (Many [1, 2]) created (useServiceEventLocks {} 0)) created (2::nat)
   \<and> eventLocks (toggleEventLock (Many [1, 2]) created
        (toggleEventLock (Many [1, 2]) created (useServiceEventLocks {} 0))) created (2::nat)
       = Some True
   \<and> held (toggleEventLock (Many [1, 2]) created
        (toggleEventLock (Many [1, 2]) created (useServiceEventLocks {} 0))) created (2::nat)
   \<and> eventLocks (toggleEventLock (Many [1, 2]) created
        (toggleEventLock (Many [1, 2]) created (useServiceEventLocks {} 0))) created (1::nat)
       = None"
  by (simp add: lock_eval)

text \<open>
  C7, as amended. Take a lock that a call of \<^verbatim>\<open>toggleEventLock\<close> has set (it was not
  held before the call and its entry is \<^verbatim>\<open>true\<close> after it), at a moment when no
  pending timer of the kind lists the identity, and that is never cleared by
  hand: no later call of \<^verbatim>\<open>toggleEventLock\<close> or \<^verbatim>\<open>clearEventLock\<close> for the kind lists
  the identity. Whatever other calls and turns of the event loop follow, the
  lock is held at every observation strictly before 250 time units after the
  call, and its entry is absent at every observation from 250 time units on.
  (The event loop of the model runs a due timer before the observation, so the
  bound holds with any tolerance.)
\<close>

theorem lock_lifetime:
  assumes "\<not> held w ev i"
    and "eventLocks (toggleEventLock d ev w) ev i = Some True"
    and "\<forall>tm \<in> set (timers w). timer_event tm = ev \<longrightarrow> i \<notin> set (getArray (timer_data tm))"
    and "\<forall>c \<in> set calls. \<not> names ev i c"
  shows "(now (lock_run calls (toggleEventLock d ev w)) < now w + 250 \<longrightarrow>
            held (lock_run calls (toggleEventLock d ev w)) ev i)
       \<and> (now w + 250 \<le> now (lock_run calls (toggleEventLock d ev w)) \<longrightarrow>
            eventLocks (lock_run calls (toggleEventLock d ev w)) ev i = None)"
proof -
  have "\<forall>tm \<in> set (timers w). \<not> timer_lists ev i tm" using assms(3) by (auto simp: timer_lists_def)
  with assms(1,2) have "armed (toggleEventLock d ev w) (now w + 250) ev i"
    by (rule armed_toggleEventLock)
  then have "armed (lock_run calls (toggleEventLock d ev w)) (now w + 250) ev i"
    using assms(4) by (rule armed_run)
  then show ?thesis by (auto simp: armed_def held_def)
qed

theorem lock_lifetime_witness:
  "\<not> held (useServiceEventLocks {} 1000) patched (9::nat)
   \<and> eventLocks (toggleEventLock (Many [4, 9]) patched (useServiceEventLocks {} 1000))
        patched (9::nat) = Some True
   \<and> held (lock_run [Toggle (One 4) patched, Advance 1100, Toggle (Many [5, 6]) patched,
                     Clear (One 9) created, Advance 1249]
        (toggleEventLock (Many [4, 9]) patched (useServiceEventLocks {} 1000))) patched (9::nat)
   \<and> eventLocks (lock_run [Toggle (One 4) patched, Advance 1100, Toggle (Many [5, 6]) patched,
                     Clear (One 9) created, Advance 1250]
        (toggleEventLock (Many [4, 9]) patched (useServiceEventLocks {} 1000))) patched (9::nat)
       = None"
proof -
  let ?w = "useServiceEventLocks {} 1000 :: nat lock_store"
  let ?cs = "\<lambda>t. [Toggle (One 4) patched, Advance 1100, Toggle (Many [5, 6]) patched,
                     Clear (One (9::nat)) created, Advance t]"
  have a: "\<not> held ?w patched 9" by (simp add: lock_eval)
  have b: "eventLocks (toggleEventLock (Many [4, 9]) patched ?w) patched 9 = Some True"
    by (simp add: lock_eval)
  have c: "\<forall>tm \<in> set (timers ?w). timer_event tm = patched \<longrightarrow> 9 \<notin> set (getArray (timer_data tm))"
    by (simp add: useServiceEventLocks_def)
  have d: "\<forall>c \<in> set (?cs t). \<not> names patched 9 c" for t by simp
  have e: "now (lock_run (?cs 1249) (toggleEventLock (Many [4, 9]) patched ?w)) < now ?w + 250"
    by (simp add: lock_eval)
  have f: "now ?w + 250 \<le> now (lock_run (?cs 1250) (toggleEventLock (Many [4, 9]) patched ?w))"
    by (simp add: lock_eval)
  from lock_lifetime [OF a b c d, of 1249, THEN conjunct1, THEN mp, OF e]
    lock_lifetime [OF a b c d, of 1250, THEN conjunct2, THEN mp, OF f] a b
  show ?thesis by simp
qed

text \<open>
  C7, as stated, fails when a timer of an earlier arming is still pending. The
  lock of identity 1 is set at time 0, cleared by a second toggle at time 100
  and set again at time 200. The timer of the first arming fires at time 250
  and deletes the lock that was set 50 time units before and that nobody
  cleared by hand.
\<close>

theorem stale_timer_clears_lock:
  "now (toggleEventLock (One 1) patched (advance 200
        (toggleEventLock (One 1) patched (advance 100
        (toggleEventLock (One 1) patched (useServiceEventLocks {} 0)))))) = 200
   \<and> \<not> held (advance 200
        (toggleEventLock (One 1) patched (advance 100
        (toggleEventLock (One 1) patched (useServiceEventLocks {} 0))))) patched (1::nat)
   \<and> held (toggleEventLock (One 1) patched (advance 200
        (toggleEventLock (One 1) patched (advance 100
        (toggleEventLock (One 1) patched (useServiceEventLocks {} 0)))))) patched (1::nat)
   \<and> \<not> held (advance 250 (toggleEventLock (One 1) patched (advance 200
        (toggleEventLock (One 1) patched (advance 100
        (toggleEventLock (One 1) patched (useServiceEventLocks {} 0))))))) patched (1::nat)
   \<and> (250::nat) < 200 + 250"
  by (simp add: lock_eval)

section \<open>Properties of the promise registry\<close>

subsection \<open>Runs\<close>

lemma exec_Nil [simp]: "exec pol [] w = w"
  by (simp add: exec_def)

lemma exec_Cons [simp]: "exec pol (c # cs) w = exec pol cs (step pol c w)"
  by (simp add: exec_def)

lemma exec_append: "exec pol (cs @ cs') w = exec pol cs' (exec pol cs w)"
  by (simp add: exec_def)

lemma nth_update_field:
  assumes "f x = f (xs ! q)"
  shows "f (xs[q := x] ! p) = f (xs ! p)"
proof (cases "q < length xs")
  case True
  then show ?thesis using assms by (cases "q = p") simp_all
next
  case False
  then have "xs[q := x] = xs" by (intro list_update_beyond) simp
  then show ?thesis by simp
qed

subsection \<open>What a run of a watcher changes\<close>

lemma run_watcher_frame [simp]:
  "state (run_watcher pol q w) = state w"
  "stores (run_watcher pol q w) = stores w"
  "length (promises (run_watcher pol q w)) = length (promises w)"
  by (auto simp: run_watcher_def watch_callback_def Let_def split: option.splits getter_failure.splits)

lemma run_watcher_other: "q \<noteq> p \<Longrightarrow> promises (run_watcher pol q w) ! p = promises w ! p"
  by (auto simp: run_watcher_def watch_callback_def Let_def split: option.splits getter_failure.splits)

lemma run_watcher_settled [simp]:
  "settled (promises (run_watcher pol q w) ! p) = settled (promises w ! p)"
  by (simp add: run_watcher_def watch_callback_def Let_def nth_update_field
      split: option.splits getter_failure.splits)

lemma run_watcher_event [simp]:
  "w_event (promises (run_watcher pol q w) ! p) = w_event (promises w ! p)"
  by (simp add: run_watcher_def watch_callback_def Let_def nth_update_field
      split: option.splits getter_failure.splits)

lemma run_watcher_timeouts_mono: "set (timeouts w) \<subseteq> set (timeouts (run_watcher pol q w))"
  by (auto simp: run_watcher_def watch_callback_def Let_def split: option.splits getter_failure.splits)

lemma run_watcher_timeouts_new: "set (timeouts (run_watcher pol q w)) \<subseteq> insert q (set (timeouts w))"
  by (auto simp: run_watcher_def watch_callback_def Let_def split: option.splits getter_failure.splits)

lemma fold_run_watcher_frame [simp]:
  "state (fold (run_watcher pol) qs w) = state w"
  "stores (fold (run_watcher pol) qs w) = stores w"
  "length (promises (fold (run_watcher pol) qs w)) = length (promises w)"
  "settled (promises (fold (run_watcher pol) qs w) ! p) = settled (promises w ! p)"
  "w_event (promises (fold (run_watcher pol) qs w) ! p) = w_event (promises w ! p)"
  by (induction qs arbitrary: w) simp_all

lemma fold_run_watcher_other:
  "p \<notin> set qs \<Longrightarrow> promises (fold (run_watcher pol) qs w) ! p = promises w ! p"
  by (induction qs arbitrary: w) (simp_all add: run_watcher_other)

lemma fold_run_watcher_timeouts_mono:
  "set (timeouts w) \<subseteq> set (timeouts (fold (run_watcher pol) qs w))"
proof (induction qs arbitrary: w)
  case Nil
  then show ?case by simp
next
  case (Cons q qs)
  show ?case using run_watcher_timeouts_mono [of w pol q] Cons.IH [of "run_watcher pol q w"]
    by auto
qed

lemma fold_run_watcher_timeouts_new:
  "set (timeouts (fold (run_watcher pol) qs w)) \<subseteq> set qs \<union> set (timeouts w)"
proof (induction qs arbitrary: w)
  case Nil
  then show ?case by simp
next
  case (Cons q qs)
  show ?case using run_watcher_timeouts_new [of pol q w] Cons.IH [of "run_watcher pol q w"]
    by auto
qed

subsection \<open>What a write of a store property changes\<close>

lemma setIndicator_frame [simp]:
  "state (setIndicator pol s n v w) = state w"
  "length (promises (setIndicator pol s n v w)) = length (promises w)"
  "settled (promises (setIndicator pol s n v w) ! p) = settled (promises w ! p)"
  "w_event (promises (setIndicator pol s n v w) ! p) = w_event (promises w ! p)"
  by (simp_all add: setIndicator_def)

lemma setIndicator_stores:
  "stores (setIndicator pol s n v w) = (stores w)(s := (stores w s)(n := v))"
  by (auto simp: setIndicator_def fun_eq_iff)

lemma setIndicator_timeouts_mono: "set (timeouts w) \<subseteq> set (timeouts (setIndicator pol s n v w))"
  using fold_run_watcher_timeouts_mono
  by (fastforce simp: setIndicator_def)

lemma setIndicator_timeouts_new:
  "set (timeouts (setIndicator pol s n v w)) \<subseteq>
     {q. q < length (promises w) \<and> depends_on w s n q} \<union> set (timeouts w)"
proof (cases "stores w s n = v")
  case True
  then show ?thesis by (simp add: setIndicator_def)
next
  case False
  then show ?thesis
    using fold_run_watcher_timeouts_new
      [of pol "filter (depends_on w s n) [0..<length (promises w)]"
          "w\<lparr>stores := (stores w)(s := (stores w s)(n := v))\<rparr>"]
    by (auto simp: setIndicator_def)
qed

lemma setIndicator_other:
  "\<not> depends_on w s n p \<Longrightarrow> promises (setIndicator pol s n v w) ! p = promises w ! p"
  by (simp add: setIndicator_def fold_run_watcher_other)

subsection \<open>What a timeout callback changes\<close>

lemma timeout_callback_frame [simp]:
  "stores (timeout_callback q w) = stores w"
  "timeouts (timeout_callback q w) = timeouts w"
  "length (promises (timeout_callback q w)) = length (promises w)"
  by (auto simp: timeout_callback_def resolve_def Let_def split: option.splits)

lemma timeout_callback_other:
  "q \<noteq> p \<Longrightarrow> promises (timeout_callback q w) ! p = promises w ! p"
  by (auto simp: timeout_callback_def resolve_def Let_def split: option.splits)

lemma timeout_callback_event [simp]:
  "w_event (promises (timeout_callback q w) ! p) = w_event (promises w ! p)"
  by (simp add: timeout_callback_def resolve_def Let_def nth_update_field split: option.splits)

lemma timeout_callback_state_None [simp]:
  "(state (timeout_callback q w) e = None) = (state w e = None)"
  by (auto simp: timeout_callback_def resolve_def Let_def split: option.splits)

lemma timeout_callback_state_Some:
  "state (timeout_callback q w) e = Some st' \<Longrightarrow>
     \<exists>st. state w e = Some st \<and> getter st' = getter st \<and> promise st' = promise st
          \<and> (isResolved st \<longrightarrow> isResolved st')"
  by (auto simp: timeout_callback_def resolve_def Let_def split: option.splits if_splits)

lemma fold_timeout_callback_frame [simp]:
  "stores (fold timeout_callback qs w) = stores w"
  "timeouts (fold timeout_callback qs w) = timeouts w"
  "length (promises (fold timeout_callback qs w)) = length (promises w)"
  "w_event (promises (fold timeout_callback qs w) ! p) = w_event (promises w ! p)"
  "(state (fold timeout_callback qs w) e = None) = (state w e = None)"
  by (induction qs arbitrary: w) simp_all

lemma fold_timeout_callback_other:
  "p \<notin> set qs \<Longrightarrow> promises (fold timeout_callback qs w) ! p = promises w ! p"
  by (induction qs arbitrary: w) (simp_all add: timeout_callback_other)

lemma fold_timeout_callback_getter:
  "state (fold timeout_callback qs w) e = Some st' \<Longrightarrow>
     \<exists>st. state w e = Some st \<and> getter st' = getter st"
proof (induction qs arbitrary: w st')
  case Nil
  then show ?case by simp
next
  case (Cons q qs)
  from Cons.IH [OF Cons.prems [simplified]]
  obtain st1 where "state (timeout_callback q w) e = Some st1" "getter st' = getter st1"
    by auto
  then show ?case using timeout_callback_state_Some [of q w e st1] by auto
qed

lemma run_timeouts_frame [simp]:
  "stores (run_timeouts w) = stores w"
  "timeouts (run_timeouts w) = []"
  "length (promises (run_timeouts w)) = length (promises w)"
  "w_event (promises (run_timeouts w) ! p) = w_event (promises w ! p)"
  "(state (run_timeouts w) e = None) = (state w e = None)"
  by (simp_all add: run_timeouts_def)

lemma run_timeouts_other:
  "p \<notin> set (timeouts w) \<Longrightarrow> promises (run_timeouts w) ! p = promises w ! p"
  by (simp add: run_timeouts_def fold_timeout_callback_other)

lemma run_timeouts_getter:
  "state (run_timeouts w) e = Some st' \<Longrightarrow> \<exists>st. state w e = Some st \<and> getter st' = getter st"
  using fold_timeout_callback_getter [of "timeouts w" "w\<lparr>timeouts := []\<rparr>" e st']
  by (simp add: run_timeouts_def)

subsection \<open>What \<^verbatim>\<open>resetState\<close> changes\<close>

lemma resetState_state [simp]: "state (resetState w) e = None"
  by (cases e) (simp_all add: resetState_def events_def)

lemma resetState_frame [simp]:
  "promises (resetState w) = promises w"
  "timeouts (resetState w) = timeouts w"
  "stores (resetState w) = stores w"
  by (simp_all add: resetState_def)

subsection \<open>What \<^verbatim>\<open>useQueuePromise\<close> changes\<close>

lemma new_promise_fst [simp]: "fst (new_promise s e st w) = length (promises w)"
  by (simp add: new_promise_def Let_def)

lemma new_promise_frame [simp]:
  "stores (snd (new_promise s e st w)) = stores w"
  "promises (snd (new_promise s e st w)) = promises w @
     [\<lparr>settled = None, w_store = s, w_event = e, watching = True,
       dep = Some (getter st), last_seen = stores w s (getter st)\<rparr>]"
  "timeouts (snd (new_promise s e st w)) =
     (if stores w s (getter st) \<noteq> Some True then timeouts w @ [length (promises w)] else timeouts w)"
  "state (snd (new_promise s e st w)) = (state w)(e \<mapsto> st\<lparr>promise := Some (length (promises w))\<rparr>)"
  by (simp_all add: new_promise_def Let_def watch_callback_def)

lemma use_stores [simp]: "stores (snd (useQueuePromise s e w)) = stores w"
  by (simp add: useQueuePromise_def Let_def split: option.splits)

lemma use_state_other: "e' \<noteq> e \<Longrightarrow> state (snd (useQueuePromise s e w)) e' = state w e'"
  by (simp add: useQueuePromise_def Let_def split: option.splits)

lemma use_state_same:
  "\<exists>st. state (snd (useQueuePromise s e w)) e = Some st
        \<and> getter st = (case state w e of None \<Rightarrow> makeGetterName e | Some st0 \<Rightarrow> getter st0)"
  by (simp add: useQueuePromise_def Let_def makeState_def split: option.splits)

lemma use_promises_old:
  "p < length (promises w) \<Longrightarrow> promises (snd (useQueuePromise s e w)) ! p = promises w ! p"
  by (simp add: useQueuePromise_def Let_def nth_append split: option.splits)

lemma use_length: "length (promises w) \<le> length (promises (snd (useQueuePromise s e w)))"
  by (simp add: useQueuePromise_def Let_def split: option.splits)

lemma use_timeouts:
  "q \<in> set (timeouts (snd (useQueuePromise s e w))) \<Longrightarrow>
     q \<in> set (timeouts w) \<or>
     (q = length (promises w) \<and> q < length (promises (snd (useQueuePromise s e w))))"
  by (auto simp: useQueuePromise_def Let_def split: option.splits if_splits)

subsection \<open>Every run keeps the registry well formed\<close>

lemma registry_ok_init: "registry_ok (registry_init \<sigma>)"
  by (simp add: registry_ok_def registry_init_def)

lemma registry_ok_step: "registry_ok w \<Longrightarrow> registry_ok (step pol c w)"
proof (cases c)
  case (Use s e)
  assume ok: "registry_ok w"
  have "getter st = makeGetterName e'" if "state (snd (useQueuePromise s e w)) e' = Some st" for e' st
  proof (cases "e' = e")
    case True
    then show ?thesis using that use_state_same [of s e w] ok
      by (auto simp: registry_ok_def split: option.splits)
  next
    case False
    then show ?thesis using that ok by (simp add: use_state_other registry_ok_def)
  qed
  moreover have "q < length (promises (snd (useQueuePromise s e w)))"
    if "q \<in> set (timeouts (snd (useQueuePromise s e w)))" for q
    using use_timeouts [OF that] use_length [of w s e] ok by (auto simp: registry_ok_def)
  ultimately show ?thesis using Use by (simp add: registry_ok_def)
next
  case Reset
  assume "registry_ok w"
  then show ?thesis using Reset by (simp add: registry_ok_def)
next
  case (SetIndicator s n v)
  assume "registry_ok w"
  then show ?thesis using SetIndicator setIndicator_timeouts_new [of pol s n v w]
    by (auto simp: registry_ok_def)
next
  case RunTimeouts
  assume ok: "registry_ok w"
  have "getter st' = makeGetterName e" if "state (run_timeouts w) e = Some st'" for e st'
    using run_timeouts_getter [OF that] ok by (auto simp: registry_ok_def)
  then show ?thesis using RunTimeouts by (simp add: registry_ok_def)
qed

lemma registry_ok_exec: "registry_ok w \<Longrightarrow> registry_ok (exec pol cs w)"
  by (induction cs arbitrary: w) (simp_all add: registry_ok_step)

subsection \<open>A watcher that has only seen \<^verbatim>\<open>true\<close> stays as it is\<close>

lemma waiting_step:
  assumes "waiting w p s e g" and "keeps_true s g c"
  shows "waiting (step pol c w) p s e g"
proof (cases c)
  case (Use s' e')
  have "p \<notin> set (timeouts (snd (useQueuePromise s' e' w)))"
    using use_timeouts [of p s' e' w] assms(1) by (auto simp: waiting_def)
  then show ?thesis using Use assms(1) use_length [of w s' e']
    by (simp add: waiting_def use_promises_old)
next
  case Reset
  then show ?thesis using assms(1) by (simp add: waiting_def)
next
  case (SetIndicator s' n v)
  show ?thesis
  proof (cases "s' = s \<and> n = g")
    case True
    then have "setIndicator pol s' n v w = w"
      using assms SetIndicator by (simp add: setIndicator_def waiting_def)
    then show ?thesis using SetIndicator assms(1) by simp
  next
    case False
    then have nd: "\<not> depends_on w s' n p"
      using assms(1) by (auto simp: depends_on_def waiting_def)
    then have "p \<notin> set (timeouts (setIndicator pol s' n v w))"
      using setIndicator_timeouts_new [of pol s' n v w] assms(1) by (auto simp: waiting_def)
    then show ?thesis using SetIndicator assms(1) nd False
      by (auto simp: waiting_def setIndicator_other setIndicator_stores)
  qed
next
  case RunTimeouts
  then show ?thesis using assms(1) by (simp add: waiting_def run_timeouts_other)
qed

lemma waiting_exec:
  "waiting w p s e g \<Longrightarrow> \<forall>c \<in> set cs. keeps_true s g c \<Longrightarrow> waiting (exec pol cs w) p s e g"
  by (induction cs arbitrary: w) (simp_all add: waiting_step)

subsection \<open>The timeout callback resolves the promise\<close>

lemma timeout_callback_resolves:
  assumes "p < length (promises w)" and "w_event (promises w ! p) = e"
    and "state w e \<noteq> None" and "settled (promises w ! p) = None \<or> settled (promises w ! p) = Some True"
  shows "resolved_true (timeout_callback p w) p e"
  using assms
  by (auto simp: resolved_true_def timeout_callback_def resolve_def Let_def split: option.splits)

lemma timeout_callback_keeps_resolved:
  assumes "resolved_true w p e" and "p < length (promises w)" and "w_event (promises w ! p) = e"
  shows "resolved_true (timeout_callback q w) p e"
proof (cases "q = p")
  case True
  then show ?thesis using assms
    by (auto simp: resolved_true_def timeout_callback_def resolve_def Let_def split: option.splits)
next
  case False
  then show ?thesis using assms
    by (auto simp: resolved_true_def timeout_callback_def resolve_def Let_def split: option.splits)
qed

lemma fold_timeout_callback_keeps_resolved:
  "resolved_true w p e \<Longrightarrow> p < length (promises w) \<Longrightarrow> w_event (promises w ! p) = e \<Longrightarrow>
     resolved_true (fold timeout_callback qs w) p e"
  by (induction qs arbitrary: w) (simp_all add: timeout_callback_keeps_resolved)

lemma fold_timeout_callback_resolves:
  "p \<in> set qs \<Longrightarrow> p < length (promises w) \<Longrightarrow> w_event (promises w ! p) = e \<Longrightarrow>
   state w e \<noteq> None \<Longrightarrow>
   settled (promises w ! p) = None \<or> settled (promises w ! p) = Some True \<Longrightarrow>
     resolved_true (fold timeout_callback qs w) p e"
proof (induction qs arbitrary: w)
  case Nil
  then show ?case by simp
next
  case (Cons q qs)
  show ?case
  proof (cases "q = p")
    case True
    have "resolved_true (timeout_callback p w) p e"
      using Cons.prems by (intro timeout_callback_resolves) auto
    then show ?thesis using True Cons.prems
      by (simp add: fold_timeout_callback_keeps_resolved)
  next
    case False
    then have "p \<in> set qs" using Cons.prems by auto
    moreover have "settled (promises (timeout_callback q w) ! p) = None
         \<or> settled (promises (timeout_callback q w) ! p) = Some True"
      using False Cons.prems by (simp add: timeout_callback_other)
    ultimately show ?thesis using Cons.IH [of "timeout_callback q w"] Cons.prems
      by simp
  qed
qed

lemma run_timeouts_resolves:
  assumes "p \<in> set (timeouts w)" and "p < length (promises w)"
    and "w_event (promises w ! p) = e" and "state w e \<noteq> None"
    and "settled (promises w ! p) = None"
  shows "resolved_true (run_timeouts w) p e"
  using assms fold_timeout_callback_resolves [of p "timeouts w" "w\<lparr>timeouts := []\<rparr>" e]
  by (simp add: run_timeouts_def)

subsection \<open>A falsy value reaches the watcher\<close>

lemma run_watcher_queues:
  assumes "p < length (promises w)"
    and "promises w ! p = \<lparr>settled = None, w_store = s, w_event = e, watching = True,
                          dep = Some g, last_seen = Some True\<rparr>"
    and "state w e = Some st" and "getter st = g" and "stores w s g \<noteq> Some True"
  shows "p \<in> set (timeouts (run_watcher pol p w))"
  using assms by (auto simp: run_watcher_def watch_callback_def Let_def)

lemma fold_run_watcher_queues:
  "p \<in> set qs \<Longrightarrow> p < length (promises w) \<Longrightarrow>
   promises w ! p = \<lparr>settled = None, w_store = s, w_event = e, watching = True,
                          dep = Some g, last_seen = Some True\<rparr> \<Longrightarrow>
   state w e = Some st \<Longrightarrow> getter st = g \<Longrightarrow> stores w s g \<noteq> Some True \<Longrightarrow>
     p \<in> set (timeouts (fold (run_watcher pol) qs w))"
proof (induction qs arbitrary: w)
  case Nil
  then show ?case by simp
next
  case (Cons q qs)
  show ?case
  proof (cases "q = p")
    case True
    have "p \<in> set (timeouts (run_watcher pol p w))"
      using Cons.prems by (intro run_watcher_queues) auto
    then show ?thesis using True fold_run_watcher_timeouts_mono [of "run_watcher pol p w" pol qs]
      by auto
  next
    case False
    then show ?thesis using Cons.IH [of "run_watcher pol q w"] Cons.prems
      by (simp add: run_watcher_other)
  qed
qed

lemma setIndicator_queues:
  assumes "waiting w p s e g" and "state w e = Some st" and "getter st = g" and "v \<noteq> Some True"
  shows "p \<in> set (timeouts (setIndicator pol s g v w))"
proof -
  let ?w = "w\<lparr>stores := (stores w)(s := (stores w s)(g := v))\<rparr>"
  have ne: "stores w s g \<noteq> v" using assms by (auto simp: waiting_def)
  have "p \<in> set (filter (depends_on w s g) [0..<length (promises w)])"
    using assms(1) by (simp add: waiting_def depends_on_def)
  then have "p \<in> set (timeouts (fold (run_watcher pol)
      (filter (depends_on w s g) [0..<length (promises w)]) ?w))"
    using assms by (intro fold_run_watcher_queues [where s = s and e = e and g = g and st = st])
      (auto simp: waiting_def)
  then show ?thesis using ne by (simp add: setIndicator_def)
qed

subsection \<open>A promise whose kind has no state is not resolved\<close>

lemma timeout_callback_abandoned:
  assumes "abandoned w p e"
  shows "abandoned (timeout_callback q w) p e"
proof (cases "q = p")
  case True
  then show ?thesis using assms
    by (auto simp: abandoned_def timeout_callback_def Let_def)
next
  case False
  then show ?thesis using assms
    by (simp add: abandoned_def timeout_callback_other)
qed

lemma fold_timeout_callback_abandoned:
  "abandoned w p e \<Longrightarrow> abandoned (fold timeout_callback qs w) p e"
  by (induction qs arbitrary: w) (simp_all add: timeout_callback_abandoned)

lemma abandoned_step:
  assumes "abandoned w p e" and "\<not> uses_kind e c"
  shows "abandoned (step pol c w) p e"
proof (cases c)
  case (Use s e')
  then show ?thesis using assms use_length [of w s e']
    by (simp add: abandoned_def use_promises_old use_state_other)
next
  case Reset
  then show ?thesis using assms by (simp add: abandoned_def)
next
  case (SetIndicator s n v)
  then show ?thesis using assms by (simp add: abandoned_def)
next
  case RunTimeouts
  have "abandoned (w\<lparr>timeouts := []\<rparr>) p e" using assms(1) by (simp add: abandoned_def)
  then show ?thesis using RunTimeouts
    by (simp add: run_timeouts_def fold_timeout_callback_abandoned)
qed

lemma abandoned_exec:
  "abandoned w p e \<Longrightarrow> \<forall>c \<in> set cs. \<not> uses_kind e c \<Longrightarrow> abandoned (exec pol cs w) p e"
  by (induction cs arbitrary: w) (simp_all add: abandoned_step)

subsection \<open>The call that creates a promise\<close>

lemma use_creates:
  assumes "registry_ok w"
    and "case state w e of None \<Rightarrow> True | Some st \<Rightarrow> promise st = None \<or> isResolved st"
  shows "fst (useQueuePromise s e w) = length (promises w)"
    and "promises (snd (useQueuePromise s e w)) = promises w @
           [\<lparr>settled = None, w_store = s, w_event = e, watching = True,
             dep = Some (makeGetterName e), last_seen = stores w s (makeGetterName e)\<rparr>]"
    and "timeouts (snd (useQueuePromise s e w)) =
           (if stores w s (makeGetterName e) \<noteq> Some True
            then timeouts w @ [length (promises w)] else timeouts w)"
    and "state (snd (useQueuePromise s e w)) e \<noteq> None"
  using assms
  by (auto simp: useQueuePromise_def Let_def makeState_def registry_ok_def split: option.splits)

lemma use_timeouts_mono: "set (timeouts w) \<subseteq> set (timeouts (snd (useQueuePromise s e w)))"
  by (auto simp: useQueuePromise_def Let_def split: option.splits)

subsection \<open>Between the observation and the timeout callback\<close>

lemma queued_step:
  assumes "queued w p e" and "c \<noteq> RunTimeouts"
  shows "queued (step pol c w) p e"
proof (cases c)
  case (Use s e')
  then show ?thesis using assms(1) use_length [of w s e'] use_timeouts_mono [of w s e']
    by (auto simp: queued_def use_promises_old)
next
  case Reset
  then show ?thesis using assms(1) by (simp add: queued_def)
next
  case (SetIndicator s n v)
  then show ?thesis using assms(1) setIndicator_timeouts_mono [of w pol s n v]
    by (auto simp: queued_def)
next
  case RunTimeouts
  then show ?thesis using assms(2) by simp
qed

lemma queued_exec:
  "queued w p e \<Longrightarrow> RunTimeouts \<notin> set cs \<Longrightarrow> queued (exec pol cs w) p e"
  by (induction cs arbitrary: w) (auto simp: queued_step)

lemma queued_resolves:
  assumes "queued w p e" and "RunTimeouts \<notin> set cs" and "state (exec pol cs w) e \<noteq> None"
  shows "settled (promises (exec pol cs w) ! p) = None
         \<and> resolved_true (run_timeouts (exec pol cs w)) p e"
proof -
  have "queued (exec pol cs w) p e" using assms(1,2) by (rule queued_exec)
  then show ?thesis using assms(3) by (simp add: queued_def run_timeouts_resolves)
qed

lemma created_waiting:
  assumes "registry_ok w"
    and "case state w e of None \<Rightarrow> True | Some st \<Rightarrow> promise st = None \<or> isResolved st"
    and "stores w s (makeGetterName e) = Some True"
  shows "waiting (snd (useQueuePromise s e w)) (length (promises w)) s e (makeGetterName e)"
proof -
  note cr = use_creates [OF assms(1,2), of s]
  have "length (promises w) \<notin> set (timeouts w)"
    using assms(1) by (auto simp: registry_ok_def)
  then show ?thesis using assms(3) by (simp add: waiting_def cr)
qed

lemma waiting_write_queued:
  assumes "waiting w p s e (makeGetterName e)" and "registry_ok w" and "state w e \<noteq> None"
    and "v \<noteq> Some True"
  shows "queued (setIndicator pol s (makeGetterName e) v w) p e"
proof -
  obtain st where st: "state w e = Some st" using assms(3) by auto
  then have "getter st = makeGetterName e" using assms(2) by (simp add: registry_ok_def)
  with assms(1) st have "p \<in> set (timeouts (setIndicator pol s (makeGetterName e) v w))"
    using assms(4) by (rule setIndicator_queues)
  then show ?thesis using assms(1) by (simp add: queued_def waiting_def)
qed

subsection \<open>Evaluating runs\<close>

lemmas registry_eval =
  exec_def registry_init_def useQueuePromise_def new_promise_def makeState_def watch_callback_def
  run_timeouts_def timeout_callback_def resolve_def setIndicator_def run_watcher_def depends_on_def
  resetState_def events_def resolved_true_def Let_def

lemma makeGetterName_created: "makeGetterName created = ''isCreatePending''"
  by code_simp

section \<open>The claims about the promise registry\<close>

text \<open>
  What decides between reuse and creation is the flag \<^verbatim>\<open>isResolved\<close> of the state of
  the kind: with a promise and the flag unset the call returns that promise and
  changes nothing; with the flag set it creates a promise and a watcher.
\<close>

lemma useQueuePromise_by_flag:
  "state w e = Some st \<Longrightarrow> promise st = Some p \<Longrightarrow> \<not> isResolved st \<Longrightarrow>
     useQueuePromise s e w = (p, w)"
  "state w e = Some st \<Longrightarrow> isResolved st \<Longrightarrow>
     fst (useQueuePromise s e w) = length (promises w)
     \<and> length (promises (snd (useQueuePromise s e w))) = Suc (length (promises w))"
  by (auto simp: useQueuePromise_def Let_def map_upd_triv split: option.splits)

text \<open>
  C4. The flag \<^verbatim>\<open>isResolved\<close> is set by the timeout callback and never unset, also
  not when \<^verbatim>\<open>useQueuePromise\<close> creates the next promise. Store 0 has
  \<^verbatim>\<open>isCreatePending\<close> false; the first promise (0) resolves; the indicator becomes
  true; the second call creates promise 1, which stays pending. The run below
  ends there: the state holds promise 1 with the flag still set. A third call,
  made while promise 1 is pending, does not return promise 1: it creates
  promise 2 and a third watcher.
\<close>

theorem second_promise_not_reused:
  "state (exec pol [Use 0 created, RunTimeouts, SetIndicator 0 ''isCreatePending'' (Some True),
                    Use 0 created]
        (registry_init (\<lambda>s. [''isCreatePending'' \<mapsto> False]))) created
     = Some \<lparr>promise = Some 1, isResolved = True, getter = ''isCreatePending''\<rparr>
   \<and> settled (promises (exec pol [Use 0 created, RunTimeouts,
                    SetIndicator 0 ''isCreatePending'' (Some True), Use 0 created]
        (registry_init (\<lambda>s. [''isCreatePending'' \<mapsto> False]))) ! 1) = None
   \<and> fst (useQueuePromise 0 created
        (exec pol [Use 0 created, RunTimeouts, SetIndicator 0 ''isCreatePending'' (Some True),
                   Use 0 created]
          (registry_init (\<lambda>s. [''isCreatePending'' \<mapsto> False])))) = 2
   \<and> length (promises (snd (useQueuePromise 0 created
        (exec pol [Use 0 created, RunTimeouts, SetIndicator 0 ''isCreatePending'' (Some True),
                   Use 0 created]
          (registry_init (\<lambda>s. [''isCreatePending'' \<mapsto> False])))))) = 3"
  by (simp add: registry_eval makeGetterName_created)

text \<open>
  C8, as amended. \<^verbatim>\<open>resetState\<close> leaves no state for any of the four kinds,
  whatever was tracked, and does not touch the promises. A promise that is
  pending at the reset stays pending through every later run that does not
  call \<^verbatim>\<open>useQueuePromise\<close> for its kind, whatever is written to the indicators and
  however often the timeout callbacks run.
\<close>

theorem resetState_abandons:
  assumes "p < length (promises w)" and "settled (promises w ! p) = None"
    and "\<forall>c \<in> set cs. \<not> uses_kind (w_event (promises w ! p)) c"
  shows "(\<forall>e. state (resetState w) e = None)
       \<and> promises (resetState w) = promises w
       \<and> settled (promises (exec pol cs (resetState w)) ! p) = None"
proof -
  have "abandoned (resetState w) p (w_event (promises w ! p))"
    using assms(1,2) by (simp add: abandoned_def)
  then have "abandoned (exec pol cs (resetState w)) p (w_event (promises w ! p))"
    using assms(3) by (rule abandoned_exec)
  then show ?thesis by (simp add: abandoned_def)
qed

theorem resetState_abandons_witness:
  "(0::nat) < length (promises (exec Undefined [Use 0 created]
        (registry_init (\<lambda>s. [''isCreatePending'' \<mapsto> True]))))
   \<and> settled (promises (exec Undefined [Use 0 created]
        (registry_init (\<lambda>s. [''isCreatePending'' \<mapsto> True]))) ! 0) = None
   \<and> state (resetState (exec Undefined [Use 0 created]
        (registry_init (\<lambda>s. [''isCreatePending'' \<mapsto> True])))) created = None
   \<and> settled (promises (exec Undefined
          [SetIndicator 0 ''isCreatePending'' (Some False), RunTimeouts, Use 0 patched, RunTimeouts]
        (resetState (exec Undefined [Use 0 created]
          (registry_init (\<lambda>s. [''isCreatePending'' \<mapsto> True]))))) ! 0) = None"
proof -
  let ?w = "exec Undefined [Use 0 created] (registry_init (\<lambda>s. [''isCreatePending'' \<mapsto> True]))"
  have a: "0 < length (promises ?w)" and b: "settled (promises ?w ! 0) = None"
    and ev: "w_event (promises ?w ! 0) = created"
    by (simp_all add: registry_eval makeGetterName_created)
  have c: "\<forall>c \<in> set [SetIndicator 0 ''isCreatePending'' (Some False), RunTimeouts,
                       Use 0 patched, RunTimeouts].
             \<not> uses_kind (w_event (promises ?w ! 0)) c"
    using ev by simp
  from resetState_abandons [OF a b c, of Undefined] a b show ?thesis by blast
qed

text \<open>
  C8, as stated, fails once \<^verbatim>\<open>useQueuePromise\<close> is called again for the kind. The
  watcher of promise 0 is not stopped by the reset; the second call gives the
  kind a state again, so when the indicator becomes false the old watcher
  sees it and its timeout callback resolves promise 0, which was pending at
  the reset.
\<close>

theorem reset_then_reuse_resolves:
  "settled (promises (exec Rethrown [Use 0 created, Reset]
        (registry_init (\<lambda>s. [''isCreatePending'' \<mapsto> True]))) ! 0) = None
   \<and> state (exec Rethrown [Use 0 created, Reset]
        (registry_init (\<lambda>s. [''isCreatePending'' \<mapsto> True]))) created = None
   \<and> settled (promises (exec Rethrown
          [Use 0 created, Reset, Use 0 created,
           SetIndicator 0 ''isCreatePending'' (Some False), RunTimeouts]
        (registry_init (\<lambda>s. [''isCreatePending'' \<mapsto> True]))) ! 0) = Some True
   \<and> settled (promises (exec Undefined
          [Use 0 created, Reset, Use 0 created,
           SetIndicator 0 ''isCreatePending'' (Some False), RunTimeouts]
        (registry_init (\<lambda>s. [''isCreatePending'' \<mapsto> True]))) ! 0) = Some True"
  by (simp add: registry_eval makeGetterName_created)

text \<open>
  C9, as amended. Take a call of \<^verbatim>\<open>useQueuePromise\<close> that creates a promise \<open>p\<close>, in
  a registry reached by any run. The promise is new and pending after the call.
  \<^item> If the indicator is falsy at the call, the promise is still pending after
    any calls that are not a turn of the event loop, and the next turn resolves
    it with \<^verbatim>\<open>true\<close>, stops the watcher and marks the state of the kind resolved,
    provided the kind has a state when that turn begins.
  \<^item> If the indicator is \<^verbatim>\<open>true\<close> at the call, the promise stays pending through
    every run in which the indicator is only written \<^verbatim>\<open>true\<close>; and when a falsy
    value is then written while the kind has a state, the promise is pending
    until the next turn, which resolves it in the same way, again provided the
    kind has a state when that turn begins.
\<close>

theorem useQueuePromise_resolves:
  assumes reach: "w = exec pol calls (registry_init \<sigma>)"
    and fresh: "case state w e of None \<Rightarrow> True | Some st \<Rightarrow> promise st = None \<or> isResolved st"
    and call: "useQueuePromise s e w = (p, w1)"
    and g: "g = makeGetterName e"
  shows "p = length (promises w) \<and> settled (promises w1 ! p) = None
    \<and> (stores w s g \<noteq> Some True \<longrightarrow>
         (\<forall>cs. RunTimeouts \<notin> set cs \<and> state (exec pol cs w1) e \<noteq> None \<longrightarrow>
            settled (promises (exec pol cs w1) ! p) = None
            \<and> resolved_true (run_timeouts (exec pol cs w1)) p e))
    \<and> (stores w s g = Some True \<longrightarrow>
         (\<forall>cs. (\<forall>c \<in> set cs. keeps_true s g c) \<longrightarrow>
            settled (promises (exec pol cs w1) ! p) = None
            \<and> (\<forall>v cs'. v \<noteq> Some True \<and> state (exec pol cs w1) e \<noteq> None
                  \<and> RunTimeouts \<notin> set cs'
                  \<and> state (exec pol cs' (setIndicator pol s g v (exec pol cs w1))) e \<noteq> None \<longrightarrow>
                 settled (promises (exec pol cs' (setIndicator pol s g v (exec pol cs w1))) ! p) = None
                 \<and> resolved_true
                     (run_timeouts (exec pol cs' (setIndicator pol s g v (exec pol cs w1)))) p e)))"
proof -
  have ok: "registry_ok w" unfolding reach by (intro registry_ok_exec registry_ok_init)
  have w1: "w1 = snd (useQueuePromise s e w)" and p: "p = fst (useQueuePromise s e w)"
    using call by simp_all
  note cr = use_creates [OF ok fresh, of s, folded w1 p g]
  have ok1: "registry_ok w1" using registry_ok_step [OF ok, of pol "Use s e"] by (simp add: w1)
  have plen: "p = length (promises w)" by (rule cr(1))
  have cell: "promises w1 ! p = \<lparr>settled = None, w_store = s, w_event = e, watching = True,
             dep = Some g, last_seen = stores w s g\<rparr>" and len1: "p < length (promises w1)"
    by (simp_all add: cr(2) plen)
  have notq: "p \<notin> set (timeouts w)" using ok plen by (auto simp: registry_ok_def)
  have A: "settled (promises w1 ! p) = None" by (simp add: cell)
  have B: "settled (promises (exec pol cs w1) ! p) = None
            \<and> resolved_true (run_timeouts (exec pol cs w1)) p e"
    if "stores w s g \<noteq> Some True" "RunTimeouts \<notin> set cs" "state (exec pol cs w1) e \<noteq> None" for cs
  proof -
    have "queued w1 p e" using that(1) cell len1 by (simp add: queued_def cr(3) plen)
    then show ?thesis using that(2,3) by (rule queued_resolves)
  qed
  have C: "settled (promises (exec pol cs w1) ! p) = None
            \<and> (\<forall>v cs'. v \<noteq> Some True \<and> state (exec pol cs w1) e \<noteq> None
                  \<and> RunTimeouts \<notin> set cs'
                  \<and> state (exec pol cs' (setIndicator pol s g v (exec pol cs w1))) e \<noteq> None \<longrightarrow>
                 settled (promises (exec pol cs' (setIndicator pol s g v (exec pol cs w1))) ! p) = None
                 \<and> resolved_true
                     (run_timeouts (exec pol cs' (setIndicator pol s g v (exec pol cs w1)))) p e)"
    if tr: "stores w s g = Some True" and kt: "\<forall>c \<in> set cs. keeps_true s g c" for cs
  proof -
    let ?w2 = "exec pol cs w1"
    have "stores w1 s g = Some True" using tr by (simp add: w1)
    moreover have "timeouts w1 = timeouts w" using tr by (simp add: cr(3))
    ultimately have "waiting w1 p s e g"
      using tr cell len1 notq by (simp add: waiting_def)
    then have wt: "waiting ?w2 p s e g" using kt by (rule waiting_exec)
    have ok2: "registry_ok ?w2" using ok1 by (rule registry_ok_exec)
    have C1: "settled (promises ?w2 ! p) = None" using wt by (simp add: waiting_def)
    have C2: "settled (promises (exec pol cs' (setIndicator pol s g v ?w2)) ! p) = None
                 \<and> resolved_true (run_timeouts (exec pol cs' (setIndicator pol s g v ?w2))) p e"
      if v: "v \<noteq> Some True" and st: "state ?w2 e \<noteq> None" and nr: "RunTimeouts \<notin> set cs'"
        and st': "state (exec pol cs' (setIndicator pol s g v ?w2)) e \<noteq> None" for v cs'
    proof -
      obtain st0 where st0: "state ?w2 e = Some st0" using st by auto
      then have gg: "getter st0 = g" using ok2 g by (simp add: registry_ok_def)
      have "p \<in> set (timeouts (setIndicator pol s g v ?w2))"
        using wt st0 gg v by (rule setIndicator_queues)
      then have "queued (setIndicator pol s g v ?w2) p e"
        using wt by (simp add: queued_def waiting_def)
      then show ?thesis using nr st' by (rule queued_resolves)
    qed
    show ?thesis using C1 C2 by blast
  qed
  show ?thesis
  proof (intro conjI)
    show "p = length (promises w)" by (rule plen)
    show "settled (promises w1 ! p) = None" by (rule A)
    show "stores w s g \<noteq> Some True \<longrightarrow>
         (\<forall>cs. RunTimeouts \<notin> set cs \<and> state (exec pol cs w1) e \<noteq> None \<longrightarrow>
            settled (promises (exec pol cs w1) ! p) = None
            \<and> resolved_true (run_timeouts (exec pol cs w1)) p e)"
      by (intro impI allI; elim conjE; rule B; assumption)
  qed (intro impI allI; rule C; assumption)
qed

theorem useQueuePromise_resolves_witness:
  "settled (promises (snd (useQueuePromise 0 created
       (exec Rethrown [] (registry_init (\<lambda>s. [''isCreatePending'' \<mapsto> True]))))) ! 0) = None
   \<and> resolved_true (run_timeouts (exec Rethrown []
        (setIndicator Rethrown 0 ''isCreatePending'' (Some False)
          (exec Rethrown [] (snd (useQueuePromise 0 created
            (exec Rethrown [] (registry_init (\<lambda>s. [''isCreatePending'' \<mapsto> True]))))))))) 0 created
   \<and> resolved_true (run_timeouts (exec Rethrown []
        (snd (useQueuePromise 0 created
            (exec Rethrown [] (registry_init (\<lambda>s. [''isCreatePending'' \<mapsto> False]))))))) 0 created"
proof -
  let ?wT = "exec Rethrown [] (registry_init (\<lambda>s. [''isCreatePending'' \<mapsto> True]))"
  let ?wF = "exec Rethrown [] (registry_init (\<lambda>s. [''isCreatePending'' \<mapsto> False]))"
  have freshT: "case state ?wT created of None \<Rightarrow> True | Some st \<Rightarrow> promise st = None \<or> isResolved st"
    and freshF: "case state ?wF created of None \<Rightarrow> True | Some st \<Rightarrow> promise st = None \<or> isResolved st"
    by (simp_all add: registry_init_def)
  have callT: "useQueuePromise 0 created ?wT = (0, snd (useQueuePromise 0 created ?wT))"
    and callF: "useQueuePromise 0 created ?wF = (0, snd (useQueuePromise 0 created ?wF))"
    by (simp_all add: registry_eval prod_eq_iff)
  note T = useQueuePromise_resolves [OF refl freshT callT makeGetterName_created [symmetric]]
  note F = useQueuePromise_resolves [OF refl freshF callF makeGetterName_created [symmetric]]
  have "stores ?wT 0 ''isCreatePending'' = Some True" by (simp add: registry_init_def)
  with T have T3: "\<forall>cs. (\<forall>c \<in> set cs. keeps_true 0 ''isCreatePending'' c) \<longrightarrow>
            settled (promises (exec Rethrown cs (snd (useQueuePromise 0 created ?wT))) ! 0) = None
            \<and> (\<forall>v cs'. v \<noteq> Some True
                  \<and> state (exec Rethrown cs (snd (useQueuePromise 0 created ?wT))) created \<noteq> None
                  \<and> RunTimeouts \<notin> set cs'
                  \<and> state (exec Rethrown cs' (setIndicator Rethrown 0 ''isCreatePending'' v
                       (exec Rethrown cs (snd (useQueuePromise 0 created ?wT))))) created \<noteq> None \<longrightarrow>
                 settled (promises (exec Rethrown cs' (setIndicator Rethrown 0 ''isCreatePending'' v
                       (exec Rethrown cs (snd (useQueuePromise 0 created ?wT))))) ! 0) = None
                 \<and> resolved_true
                     (run_timeouts (exec Rethrown cs' (setIndicator Rethrown 0 ''isCreatePending'' v
                       (exec Rethrown cs (snd (useQueuePromise 0 created ?wT)))))) 0 created)"
    by blast
  have T4: "resolved_true
              (run_timeouts (exec Rethrown [] (setIndicator Rethrown 0 ''isCreatePending'' (Some False)
                 (exec Rethrown [] (snd (useQueuePromise 0 created ?wT)))))) 0 created"
  proof -
    have a: "\<forall>c \<in> set []. keeps_true 0 ''isCreatePending'' c" by simp
    have b: "Some False \<noteq> Some True
        \<and> state (exec Rethrown [] (snd (useQueuePromise 0 created ?wT))) created \<noteq> None
        \<and> RunTimeouts \<notin> set []
        \<and> state (exec Rethrown [] (setIndicator Rethrown 0 ''isCreatePending'' (Some False)
              (exec Rethrown [] (snd (useQueuePromise 0 created ?wT))))) created \<noteq> None"
      by (simp add: registry_eval makeGetterName_created)
    from T3 [THEN spec [where x = "[]"], THEN mp, OF a, THEN conjunct2,
        THEN spec [where x = "Some False"], THEN spec [where x = "[]"], THEN mp, OF b]
    show ?thesis by (rule conjunct2)
  qed
  have "stores ?wF 0 ''isCreatePending'' \<noteq> Some True" by (simp add: registry_init_def)
  with F have F2: "\<forall>cs. RunTimeouts \<notin> set cs
         \<and> state (exec Rethrown cs (snd (useQueuePromise 0 created ?wF))) created \<noteq> None \<longrightarrow>
            settled (promises (exec Rethrown cs (snd (useQueuePromise 0 created ?wF))) ! 0) = None
            \<and> resolved_true (run_timeouts (exec Rethrown cs (snd (useQueuePromise 0 created ?wF)))) 0 created"
    by blast
  have F3: "resolved_true (run_timeouts (exec Rethrown [] (snd (useQueuePromise 0 created ?wF)))) 0 created"
  proof -
    have c: "RunTimeouts \<notin> set []
         \<and> state (exec Rethrown [] (snd (useQueuePromise 0 created ?wF))) created \<noteq> None"
      by (simp add: registry_eval makeGetterName_created)
    from F2 [THEN spec [where x = "[]"], THEN mp, OF c] show ?thesis by (rule conjunct2)
  qed
  from T have "settled (promises (snd (useQueuePromise 0 created ?wT)) ! 0) = None" by blast
  with T4 F3 show ?thesis by blast
qed

text \<open>
  C9, as stated, fails when \<^verbatim>\<open>resetState\<close> runs between the observation and the
  timeout callback. The watcher sees \<^verbatim>\<open>false\<close> at once and the callback is queued;
  after the reset the callback stops the watcher and then throws on
  \<^verbatim>\<open>state[event].isResolved = true\<close>, so the promise is pending with no watcher and
  no callback left, and no state is marked.
\<close>

theorem reset_before_timeout_callback:
  "last_seen (promises (exec Rethrown [Use 0 created]
       (registry_init (\<lambda>s. [''isCreatePending'' \<mapsto> False]))) ! 0) = Some False
   \<and> timeouts (exec Rethrown [Use 0 created]
       (registry_init (\<lambda>s. [''isCreatePending'' \<mapsto> False]))) = [0]
   \<and> settled (promises (exec Rethrown [Use 0 created, Reset, RunTimeouts]
       (registry_init (\<lambda>s. [''isCreatePending'' \<mapsto> False]))) ! 0) = None
   \<and> \<not> watching (promises (exec Rethrown [Use 0 created, Reset, RunTimeouts]
       (registry_init (\<lambda>s. [''isCreatePending'' \<mapsto> False]))) ! 0)
   \<and> timeouts (exec Rethrown [Use 0 created, Reset, RunTimeouts]
       (registry_init (\<lambda>s. [''isCreatePending'' \<mapsto> False]))) = []
   \<and> state (exec Rethrown [Use 0 created, Reset, RunTimeouts]
       (registry_init (\<lambda>s. [''isCreatePending'' \<mapsto> False]))) created = None
   \<and> settled (promises (exec Undefined [Use 0 created, Reset, RunTimeouts]
       (registry_init (\<lambda>s. [''isCreatePending'' \<mapsto> False]))) ! 0) = None"
  by (simp add: registry_eval makeGetterName_created)

text \<open>
  C10. The state is one table for all stores. When a kind has no state and the
  indicator of store \<open>s1\<close> is \<^verbatim>\<open>true\<close>, the call for \<open>s1\<close> creates one promise with one
  watcher, and a following call for another store \<open>s2\<close> returns that same promise
  and changes nothing. The watcher reads the indicator of \<open>s1\<close>: no write to a
  property of \<open>s2\<close> resolves the promise (nor does any run that keeps the
  indicator of \<open>s1\<close> true), and a falsy write to the indicator of \<open>s1\<close> does.
\<close>

theorem shared_promise_watches_first_store:
  assumes reach: "w = exec pol calls (registry_init \<sigma>)"
    and none: "state w e = None"
    and diff: "s1 \<noteq> s2"
    and pend: "stores w s1 (makeGetterName e) = Some True"
    and call: "useQueuePromise s1 e w = (p, w1)"
  shows "useQueuePromise s2 e w1 = (p, w1)
     \<and> length (promises w1) = Suc (length (promises w))
     \<and> w_store (promises w1 ! p) = s1
     \<and> dep (promises w1 ! p) = Some (makeGetterName e)
     \<and> (\<forall>n v. settled (promises (run_timeouts (setIndicator pol s2 n v w1)) ! p) = None)
     \<and> (\<forall>cs. (\<forall>c \<in> set cs. keeps_true s1 (makeGetterName e) c) \<longrightarrow>
            settled (promises (exec pol cs w1) ! p) = None)
     \<and> (\<forall>v. v \<noteq> Some True \<longrightarrow>
            resolved_true (run_timeouts (setIndicator pol s1 (makeGetterName e) v w1)) p e)"
proof -
  have ok: "registry_ok w" unfolding reach by (intro registry_ok_exec registry_ok_init)
  have fresh: "case state w e of None \<Rightarrow> True | Some st \<Rightarrow> promise st = None \<or> isResolved st"
    by (simp add: none)
  have w1: "w1 = snd (useQueuePromise s1 e w)" and p: "p = fst (useQueuePromise s1 e w)"
    using call by simp_all
  note cr = use_creates [OF ok fresh, of s1, folded w1 p]
  have ok1: "registry_ok w1" using registry_ok_step [OF ok, of pol "Use s1 e"] by (simp add: w1)
  have wt: "waiting w1 p s1 e (makeGetterName e)"
    using created_waiting [OF ok fresh pend] by (simp add: w1 cr(1))
  have st1: "state w1 e = Some ((makeState e)\<lparr>promise := Some p\<rparr>)"
    using none by (simp add: w1 p useQueuePromise_def Let_def makeState_def)
  have upd: "(state w1)(e \<mapsto> (makeState e)\<lparr>promise := Some p\<rparr>) = state w1"
    using st1 by (rule map_upd_triv)
  have unres: "isResolved (makeState e) = False" by (simp add: makeState_def)
  have same: "useQueuePromise s2 e w1 = (p, w1)"
    by (simp add: useQueuePromise_def Let_def st1 upd unres)
  have len: "length (promises w1) = Suc (length (promises w))" by (simp add: cr(2))
  have keep: "settled (promises (exec pol cs w1) ! p) = None"
    if "\<forall>c \<in> set cs. keeps_true s1 (makeGetterName e) c" for cs
    using waiting_exec [OF wt that, of pol] by (simp add: waiting_def)
  have other: "settled (promises (run_timeouts (setIndicator pol s2 n v w1)) ! p) = None" for n v
    using keep [of "[SetIndicator s2 n v, RunTimeouts]"] diff by simp
  have first: "resolved_true (run_timeouts (setIndicator pol s1 (makeGetterName e) v w1)) p e"
    if "v \<noteq> Some True" for v
  proof -
    have "state w1 e \<noteq> None" by (simp add: st1)
    with wt ok1 have "queued (setIndicator pol s1 (makeGetterName e) v w1) p e"
      using that by (rule waiting_write_queued)
    then show ?thesis using queued_resolves [of _ p e "[]" pol] by (simp add: st1)
  qed
  show ?thesis using same len wt keep other first by (simp add: waiting_def)
qed

theorem shared_promise_watches_first_store_witness:
  "(0::nat) \<noteq> 1
   \<and> useQueuePromise 1 created (snd (useQueuePromise 0 created
        (exec Undefined [] (registry_init (\<lambda>s. [''isCreatePending'' \<mapsto> True])))))
      = (0, snd (useQueuePromise 0 created
        (exec Undefined [] (registry_init (\<lambda>s. [''isCreatePending'' \<mapsto> True])))))
   \<and> settled (promises (run_timeouts (setIndicator Undefined 1 ''isCreatePending'' (Some False)
        (snd (useQueuePromise 0 created
          (exec Undefined [] (registry_init (\<lambda>s. [''isCreatePending'' \<mapsto> True]))))))) ! 0) = None
   \<and> resolved_true (run_timeouts (setIndicator Undefined 0 ''isCreatePending'' (Some False)
        (snd (useQueuePromise 0 created
          (exec Undefined [] (registry_init (\<lambda>s. [''isCreatePending'' \<mapsto> True]))))))) 0 created"
proof -
  let ?w = "exec Undefined [] (registry_init (\<lambda>s. [''isCreatePending'' \<mapsto> True]))"
  have none: "state ?w created = None" by (simp add: registry_init_def)
  have diff: "(0::nat) \<noteq> 1" by simp
  have pend: "stores ?w 0 (makeGetterName created) = Some True"
    by (simp add: registry_init_def makeGetterName_created)
  have call: "useQueuePromise 0 created ?w = (0, snd (useQueuePromise 0 created ?w))"
    by (simp add: registry_eval prod_eq_iff)
  note T = shared_promise_watches_first_store [OF refl none diff pend call,
      unfolded makeGetterName_created]
  have "Some False \<noteq> Some True" by simp
  with T diff show ?thesis by blast
qed

end
